theory Spec2Isabelle
  imports Complex_Main "HOL-Library.Stream" "HOL-Library.Char_ord" "HOL-Library.List_Lexorder"
begin

section \<open>Data model\<close>

text \<open>
  The battle engine of \<^verbatim>\<open>index.js\<close>. JavaScript numbers are modelled as rationals
  (every finite double is one; rounding of the arithmetic is not modelled), strings as
  \<^typ>\<open>string\<close>, \<^verbatim>\<open>null\<close>/\<^verbatim>\<open>undefined\<close> as \<^term>\<open>None\<close>.

  \<^verbatim>\<open>Math.random()\<close> is the only ambient effect of the engine. It is modelled as an
  infinite stream of draws that every function reading it takes and hands back: the
  head of the stream is the next value \<^verbatim>\<open>Math.random()\<close> returns.
\<close>

type_synonym rng = "rat stream"

text \<open>
  A character object as \<^verbatim>\<open>buildCharacterFromAcct\<close> builds it. \<^verbatim>\<open>crit\<close> is optional in the
  source (\<^verbatim>\<open>attacker.crit ?? 0\<close>).
\<close>

record combatant =
  id' :: string
  name :: string
  maxHp :: rat
  hp :: rat
  atk :: rat
  def :: rat
  agi :: rat
  speed :: rat
  crit :: "rat option"

text \<open>\<^verbatim>\<open>const ACTION = { ATTACK: 'attack', DEFEND: 'defend', EVADE: 'evade' }\<close>\<close>

definition ACTION_ATTACK :: string where
  "ACTION_ATTACK = ''attack''"

definition ACTION_DEFEND :: string where
  "ACTION_DEFEND = ''defend''"

definition ACTION_EVADE :: string where
  "ACTION_EVADE = ''evade''"

definition ACTION_values :: "string list" where
  "ACTION_values = [ACTION_ATTACK, ACTION_DEFEND, ACTION_EVADE]"

text \<open>
  The two player objects of a battle are shared by reference between \<^verbatim>\<open>playerA\<close>/\<^verbatim>\<open>playerB\<close>
  and \<^verbatim>\<open>turnOrder\<close>. A reference to one of them is a \<open>side\<close>; the objects themselves live
  in the battle record, so a write through any reference is seen through all of them.
\<close>

datatype side = SideA | SideB

text \<open>
  The lines of the round log. The source renders them as Korean text; the model keeps
  what each line is built from. The hp bar of the status line is a rendering of
  \<open>hp / maxHp\<close> and is left out.
\<close>

datatype line =
    RoundHeader nat
  | Declared string "string option" string "string option"
  | Blank
  | DefendPrep string
  | EvadePrep string
  | EvadeSuccess string string
  | EvadeFail string
  | AttackMiss string
  | AttackHit string string rat bool "bool option"
  | DidNothing string
  | Status string rat rat string rat rat
  | FinishDraw line
  | FinishWin string string line
  | NextRoundPrompt

datatype message =
    AlreadyFinished
  | NotParticipant
  | InvalidAction
  | BothChosenOdd
  | WaitingForOpponent
  | RoundLog "line list"
  | AlreadyInProgress
  | AlreadyInOtherBattle
  | Intro string string string line
  | NotInBattle

text \<open>The one exception the engine could raise: reading a property of \<^verbatim>\<open>null\<close>.\<close>

datatype error = TypeError

text \<open>
  \<^verbatim>\<open>this.actions\<close> is an object keyed by player id: an association list of its own
  properties, so that \<^verbatim>\<open>Object.values\<close> is the list of its second components (up to
  their order, on which \<^verbatim>\<open>every\<close> does not depend).
\<close>

type_synonym slots = "(string \<times> string option) list"

record battle =
  playerA :: combatant
  playerB :: combatant
  turnOrder :: "side \<times> side"
  actions :: slots
  round' :: nat
  isFinished :: bool
  winnerId :: "string option"

section \<open>Utilities\<close>

fun join :: "string \<Rightarrow> string list \<Rightarrow> string" where
  "join sep [] = []"
| "join sep [x] = x"
| "join sep (x # y # ys) = x @ sep @ join sep (y # ys)"

text \<open>\<^verbatim>\<open>[acctA, acctB].sort().join('__')\<close>: the default sort compares strings code unit by
  code unit, the lexicographic order of the lists.\<close>

definition makeBattleId :: "string \<Rightarrow> string \<Rightarrow> string" where
  "makeBattleId acctA acctB = join ''__'' (sort [acctA, acctB])"

text \<open>Writing \<^verbatim>\<open>obj[k] = v\<close>: an existing key keeps its place, a new one is appended.\<close>

fun set_slot :: "string \<Rightarrow> string option \<Rightarrow> slots \<Rightarrow> slots" where
  "set_slot k v [] = [(k, v)]"
| "set_slot k v (p # ps) = (if fst p = k then (k, v) # ps else p # set_slot k v ps)"

text \<open>Reading \<^verbatim>\<open>obj[k]\<close>. The engine reads at the ids of the two players, own keys from the
  constructor on. For a key that is not there the model gives \<^term>\<open>None\<close>: what the source
  finds then is no action string, and every reader of a slot treats it as it treats \<^verbatim>\<open>null\<close>.\<close>

definition slot :: "slots \<Rightarrow> string \<Rightarrow> string option" where
  "slot acts k = (case map_of acts k of Some v \<Rightarrow> v | None \<Rightarrow> None)"

text \<open>
  The call \<^verbatim>\<open>this.actions.hasOwnProperty(k)\<close>. The method is looked up on the object
  itself first: when \<^verbatim>\<open>'hasOwnProperty'\<close> is one of its own keys (a player id), what is
  found is the value of that slot, \<^verbatim>\<open>null\<close> or an action string, and calling it raises a
  TypeError. Otherwise the method of \<^verbatim>\<open>Object.prototype\<close> answers whether \<open>k\<close> is an own key.
\<close>

definition hasOwnProperty :: "slots \<Rightarrow> string \<Rightarrow> error + bool" where
  "hasOwnProperty acts k =
     (if map_of acts ''hasOwnProperty'' \<noteq> None then Inl TypeError
      else Inr (map_of acts k \<noteq> None))"

section \<open>Battle\<close>

definition getP :: "battle \<Rightarrow> side \<Rightarrow> combatant" where
  "getP b s = (case s of SideA \<Rightarrow> playerA b | SideB \<Rightarrow> playerB b)"

definition setHp :: "battle \<Rightarrow> side \<Rightarrow> rat \<Rightarrow> battle" where
  "setHp b s v = (case s of
     SideA \<Rightarrow> b\<lparr>playerA := (playerA b)\<lparr>hp := v\<rparr>\<rparr>
   | SideB \<Rightarrow> b\<lparr>playerB := (playerB b)\<lparr>hp := v\<rparr>\<rparr>)"

definition decideOrder :: "combatant \<Rightarrow> combatant \<Rightarrow> rng \<Rightarrow> (side \<times> side) \<times> rng" where
  "decideOrder a b rng =
     (if speed a > speed b then ((SideA, SideB), rng)
      else if speed b > speed a then ((SideB, SideA), rng)
      else (if shd rng < 1 / 2 then (SideA, SideB) else (SideB, SideA), stl rng))"

text \<open>The constructor \<^verbatim>\<open>new Battle(playerA, playerB)\<close>.\<close>

definition new_Battle :: "combatant \<Rightarrow> combatant \<Rightarrow> rng \<Rightarrow> battle \<times> rng" where
  "new_Battle a b rng =
     (let (order, rng') = decideOrder a b rng
      in (\<lparr>playerA = a, playerB = b, turnOrder = order,
           actions = set_slot (id' b) None (set_slot (id' a) None []),
           round' = 1, isFinished = False, winnerId = None\<rparr>, rng'))"

definition getPlayer :: "battle \<Rightarrow> string option \<Rightarrow> combatant option" where
  "getPlayer b i =
     (if Some (id' (playerA b)) = i then Some (playerA b)
      else if Some (id' (playerB b)) = i then Some (playerB b)
      else None)"

definition getOpponent :: "battle \<Rightarrow> string option \<Rightarrow> combatant option" where
  "getOpponent b i =
     (if Some (id' (playerA b)) = i then Some (playerB b)
      else if Some (id' (playerB b)) = i then Some (playerA b)
      else None)"

definition isReady :: "battle \<Rightarrow> bool" where
  "isReady b = list_all (\<lambda>a. a \<noteq> None) (map snd (actions b))"

definition resetActions :: "battle \<Rightarrow> battle" where
  "resetActions b =
     b\<lparr>actions := set_slot (id' (playerB b)) None (set_slot (id' (playerA b)) None (actions b))\<rparr>"

definition checkEnd :: "battle \<Rightarrow> battle \<times> bool" where
  "checkEnd b =
     (if hp (playerA b) \<le> 0 \<and> hp (playerB b) \<le> 0
        then (b\<lparr>isFinished := True, winnerId := None\<rparr>, True)
      else if hp (playerA b) \<le> 0
        then (b\<lparr>isFinished := True, winnerId := Some (id' (playerB b))\<rparr>, True)
      else if hp (playerB b) \<le> 0
        then (b\<lparr>isFinished := True, winnerId := Some (id' (playerA b))\<rparr>, True)
      else (b, False))"

subsection \<open>Combat math\<close>

definition isAttackHit :: "combatant \<Rightarrow> combatant \<Rightarrow> rng \<Rightarrow> bool \<times> rng" where
  "isAttackHit attacker defender rng =
     (let base = 80 / 100;
          diff = (agi attacker - agi defender) * (5 / 1000);
          hit = max (10 / 100) (min (95 / 100) (base + diff))
      in (shd rng < hit, stl rng))"

definition tryEvade :: "combatant \<Rightarrow> rng \<Rightarrow> bool \<times> rng" where
  "tryEvade defender rng =
     (let chance = max (5 / 100) (min (60 / 100) (agi defender / 100))
      in (shd rng < chance, stl rng))"

definition tryDefend :: "combatant \<Rightarrow> rng \<Rightarrow> bool \<times> rng" where
  "tryDefend defender rng =
     (let chance = max (5 / 100) (min (60 / 100) (def defender / 100))
      in (shd rng < chance, stl rng))"

text \<open>
  The result object \<^verbatim>\<open>{ dmg, crit, defended }\<close> is the triple of its fields; a field the
  source leaves out is \<^term>\<open>False\<close> for \<^verbatim>\<open>crit\<close> (only its truthiness is read) and
  \<^term>\<open>None\<close> for \<^verbatim>\<open>defended\<close>.
\<close>

definition calcDamage ::
  "combatant \<Rightarrow> combatant \<Rightarrow> string option \<Rightarrow> rng \<Rightarrow> (rat \<times> bool \<times> bool option) \<times> rng" where
  "calcDamage attacker defender defenderAction rng =
     (let dmg = atk attacker in
      if shd rng < (case crit attacker of Some c \<Rightarrow> c | None \<Rightarrow> 0)
      then ((max 0 (of_int \<lfloor>dmg * (15 / 10)\<rfloor>), True, None), stl rng)
      else if defenderAction = Some ACTION_DEFEND
      then (let (ok, rng') = tryDefend defender (stl rng)
            in if ok then ((max 0 (dmg - def defender), False, Some True), rng')
               else ((dmg, False, Some False), rng'))
      else ((dmg, False, None), stl rng))"

subsection \<open>Resolution\<close>

definition statusLine :: "battle \<Rightarrow> line" where
  "statusLine b =
     (let a = playerA b; c = playerB b
      in Status (name a) (hp a) (maxHp a) (name c) (hp c) (maxHp c))"

text \<open>\<^verbatim>\<open>winner.name\<close> and \<^verbatim>\<open>loser.name\<close> raise a TypeError when the lookup gave \<^verbatim>\<open>null\<close>.\<close>

definition finishMessage :: "battle \<Rightarrow> error + line" where
  "finishMessage b =
     (let a = playerA b; c = playerB b; status = statusLine b
      in if winnerId b = None \<and> hp a \<le> 0 \<and> hp c \<le> 0 then Inr (FinishDraw status)
         else (case (getPlayer b (winnerId b), getOpponent b (winnerId b)) of
                 (Some winner, Some loser) \<Rightarrow> Inr (FinishWin (name winner) (name loser) status)
               | _ \<Rightarrow> Inl TypeError))"

definition processSingleAction :: "battle \<Rightarrow> side \<Rightarrow> side \<Rightarrow> rng \<Rightarrow> battle \<times> line list \<times> rng" where
  "processSingleAction b attacker defender rng =
     (let attackerAction = slot (actions b) (id' (getP b attacker));
          defenderAction = slot (actions b) (id' (getP b defender))
      in if attackerAction = Some ACTION_DEFEND then (b, [DefendPrep (name (getP b attacker))], rng)
         else if attackerAction = Some ACTION_EVADE then (b, [EvadePrep (name (getP b attacker))], rng)
         else if attackerAction = Some ACTION_ATTACK then
           (let (evaded, rng1) =
                  (if defenderAction = Some ACTION_EVADE then tryEvade (getP b defender) rng
                   else (False, rng));
                lines = (if defenderAction = Some ACTION_EVADE
                         then [EvadeFail (name (getP b defender))] else [])
            in if evaded
               then (b, [EvadeSuccess (name (getP b defender)) (name (getP b attacker))], rng1)
               else (let (hit, rng2) = isAttackHit (getP b attacker) (getP b defender) rng1
                     in if \<not> hit then (b, lines @ [AttackMiss (name (getP b attacker))], rng2)
                        else (let ((dmg, crit, defended), rng3) =
                                     calcDamage (getP b attacker) (getP b defender) defenderAction rng2;
                                   b' = setHp b defender (max 0 (hp (getP b defender) - dmg))
                              in (b',
                                  lines @ [AttackHit (name (getP b' attacker)) (name (getP b' defender)) dmg crit
                                     (if defenderAction = Some ACTION_DEFEND then defended else None)],
                                  rng3))))
         else (b, [DidNothing (name (getP b attacker))], rng))"

text \<open>
  \<^verbatim>\<open>resolveRound\<close> returns the log; the model returns the battle after it as well. An
  exception of \<^verbatim>\<open>finishMessage\<close> leaves the method at once.
\<close>

definition resolveRound :: "battle \<Rightarrow> rng \<Rightarrow> error + (battle \<times> line list \<times> rng)" where
  "resolveRound b rng =
     (let (first, second) = turnOrder b;
          aAction = slot (actions b) (id' (playerA b));
          bAction = slot (actions b) (id' (playerB b));
          log0 = [RoundHeader (round' b),
                  Declared (name (playerA b)) aAction (name (playerB b)) bAction, Blank];
          (b1, lines1, rng1) = processSingleAction b first second rng;
          (b2, ended1) = checkEnd b1;
          (b3, lines2, rng2) =
             (if \<not> ended1 then processSingleAction b2 second first rng1 else (b2, [], rng1));
          (b4, ended2) = checkEnd b3
      in if ended2
         then (case finishMessage b4 of
                 Inl e \<Rightarrow> Inl e
               | Inr fin \<Rightarrow> Inr (b4, log0 @ lines1 @ lines2 @ [Blank, fin], rng2))
         else (let b5 = resetActions (b4\<lparr>round' := round' b4 + 1\<rparr>)
               in Inr (b5, log0 @ lines1 @ lines2 @ [Blank, statusLine b5, NextRoundPrompt], rng2)))"

text \<open>
  \<^verbatim>\<open>setAction\<close> returns \<^verbatim>\<open>{ done, message }\<close>, the pair of its fields. It raises what the
  \<^verbatim>\<open>hasOwnProperty\<close> call raises, before anything is written; \<^verbatim>\<open>other.id\<close> raises a
  TypeError when \<^verbatim>\<open>getOpponent\<close> gave \<^verbatim>\<open>null\<close>. The truthiness test of \<^verbatim>\<open>otherAction\<close> is
  false for \<^verbatim>\<open>null\<close> and for the empty string.
\<close>

definition setAction ::
  "battle \<Rightarrow> string \<Rightarrow> string \<Rightarrow> rng \<Rightarrow> error + (battle \<times> (bool \<times> message) \<times> rng)" where
  "setAction b playerId action rng =
     (if isFinished b then Inr (b, (True, AlreadyFinished), rng)
      else (case hasOwnProperty (actions b) playerId of
              Inl e \<Rightarrow> Inl e
            | Inr own \<Rightarrow>
                if \<not> own then Inr (b, (False, NotParticipant), rng)
                else if action \<notin> set ACTION_values then Inr (b, (False, InvalidAction), rng)
                else (let b1 = b\<lparr>actions := set_slot playerId (Some action) (actions b)\<rparr>
                      in if \<not> isReady b1
                         then (case getOpponent b1 (Some playerId) of
                                 None \<Rightarrow> Inl TypeError
                               | Some other \<Rightarrow>
                                   (let otherAction = slot (actions b1) (id' other);
                                        waitMsg = (if otherAction \<noteq> None \<and> otherAction \<noteq> Some []
                                                   then BothChosenOdd else WaitingForOpponent)
                                    in Inr (b1, (False, waitMsg), rng)))
                         else (case resolveRound b1 rng of
                                 Inl e \<Rightarrow> Inl e
                               | Inr (b2, result, rng') \<Rightarrow> Inr (b2, (True, RoundLog result), rng')))))"

section \<open>Battle manager\<close>

text \<open>
  The two \<^verbatim>\<open>Map\<close>s of the manager. A battle object is reachable only through
  \<^verbatim>\<open>battlesById\<close>, so the map holds the battle itself and a mutation of the battle is an
  update of the map at its key.
\<close>

record manager =
  battlesById :: "string \<rightharpoonup> battle"
  battleIdByPlayer :: "string \<rightharpoonup> string"

definition new_BattleManager :: manager where
  "new_BattleManager = \<lparr>battlesById = Map.empty, battleIdByPlayer = Map.empty\<rparr>"

text \<open>The result objects: \<^verbatim>\<open>{ ok, message }\<close> of \<^verbatim>\<open>submitAction\<close>, and \<^verbatim>\<open>{ ok, battleId, message }\<close>
  of \<^verbatim>\<open>startBattle\<close>.\<close>

record submit_result =
  ok :: bool
  message :: message

record start_result = submit_result +
  battleId :: string

text \<open>\<^verbatim>\<open>if (!battleId) return null\<close>: a missing entry and the empty string are both falsy. The
  source returns the battle object; the model returns the key with it, the place where a
  mutation of that object is written back.\<close>

definition findBattleForPlayer :: "manager \<Rightarrow> string \<Rightarrow> (string \<times> battle) option" where
  "findBattleForPlayer m acct =
     (case battleIdByPlayer m acct of
        None \<Rightarrow> None
      | Some bid \<Rightarrow> if bid = [] then None
                    else (case battlesById m bid of None \<Rightarrow> None | Some b \<Rightarrow> Some (bid, b)))"

definition startBattle :: "manager \<Rightarrow> combatant \<Rightarrow> combatant \<Rightarrow> rng \<Rightarrow> manager \<times> start_result \<times> rng" where
  "startBattle m charA charB rng =
     (let bid = makeBattleId (id' charA) (id' charB)
      in if battlesById m bid \<noteq> None
         then (m, \<lparr>ok = False, message = AlreadyInProgress, battleId = bid\<rparr>, rng)
         else if battleIdByPlayer m (id' charA) \<noteq> None \<or> battleIdByPlayer m (id' charB) \<noteq> None
         then (m, \<lparr>ok = False, message = AlreadyInOtherBattle, battleId = bid\<rparr>, rng)
         else (let (b, rng') = new_Battle charA charB rng;
                   m' = m\<lparr>battlesById := (battlesById m)(bid \<mapsto> b),
                          battleIdByPlayer := ((battleIdByPlayer m)(id' charA \<mapsto> bid))(id' charB \<mapsto> bid)\<rparr>;
                   first = fst (turnOrder b)
               in (m', \<lparr>ok = True,
                         message = Intro (name (playerA b)) (name (playerB b)) (name (getP b first)) (statusLine b),
                         battleId = bid\<rparr>, rng')))"

text \<open>
  \<^verbatim>\<open>submitAction\<close> mutates the battle it found in place, then reads \<^verbatim>\<open>battle.isFinished\<close>. The
  model writes the battle after \<^verbatim>\<open>setAction\<close> back at the key it was found under before the
  cleanup reads it.
\<close>

definition submitAction ::
  "manager \<Rightarrow> string \<Rightarrow> string \<Rightarrow> rng \<Rightarrow> error + (manager \<times> submit_result \<times> rng)" where
  "submitAction m playerAcct action rng =
     (case findBattleForPlayer m playerAcct of
        None \<Rightarrow> Inr (m, \<lparr>ok = False, message = NotInBattle\<rparr>, rng)
      | Some (key, b) \<Rightarrow>
          (case setAction b playerAcct action rng of
             Inl e \<Rightarrow> Inl e
           | Inr (b', res, rng') \<Rightarrow>
               (let m1 = m\<lparr>battlesById := (battlesById m)(key \<mapsto> b')\<rparr>;
                    m2 = (if isFinished b'
                          then (let bid = battleIdByPlayer m1 playerAcct;
                                    players = ((battleIdByPlayer m1)(id' (playerA b') := None))
                                                 (id' (playerB b') := None);
                                    battles = (case bid of
                                                 None \<Rightarrow> battlesById m1
                                               | Some k \<Rightarrow> if k = [] then battlesById m1
                                                           else (battlesById m1)(k := None))
                                in m1\<lparr>battlesById := battles, battleIdByPlayer := players\<rparr>)
                          else m1)
                in Inr (m2, \<lparr>ok = True, message = snd res\<rparr>, rng'))))"

section \<open>Reachable states, invariants and sample characters\<close>

text \<open>
  The two characters of \<^verbatim>\<open>loadCharacters\<close>, as \<^verbatim>\<open>buildCharacterFromAcct(acct, null)\<close> returns
  them: \<open>name\<close> is the base name (transliterated), \<open>hp\<close> is \<open>maxHp\<close>.
\<close>

definition char_sawa_2 :: combatant where
  "char_sawa_2 = \<lparr>id' = ''sawa_2@mastodon.social'', name = ''Sawa'', maxHp = 100, hp = 100,
     atk = 20, def = 10, agi = 15, speed = 18, crit = Some (10 / 100)\<rparr>"

definition char_sawa :: combatant where
  "char_sawa = \<lparr>id' = ''sawa_@mastodon.social'', name = ''Sawa 2'', maxHp = 90, hp = 90,
     atk = 22, def = 9, agi = 28, speed = 20, crit = Some (12 / 100)\<rparr>"

text \<open>The states a battle goes through: any number of \<open>setAction\<close> calls that return. (A
  call that raises in such a state does so at its \<^verbatim>\<open>hasOwnProperty\<close> call, before it writes
  anything: it adds no state.)\<close>

inductive battle_steps :: "battle \<Rightarrow> battle \<Rightarrow> bool" where
  steps_refl: "battle_steps b b"
| steps_setAction:
    "battle_steps b0 b \<Longrightarrow> setAction b p act rng = Inr (b', res, rng') \<Longrightarrow> battle_steps b0 b'"

text \<open>The keys of \<^verbatim>\<open>this.actions\<close> are the two player ids, each once.\<close>

definition wf_slots :: "battle \<Rightarrow> bool" where
  "wf_slots b = (fst ` set (actions b) = {id' (playerA b), id' (playerB b)}
                 \<and> distinct (map fst (actions b)))"

text \<open>The stats of a character are non-negative integers.\<close>

definition nonneg_int_stats :: "combatant \<Rightarrow> bool" where
  "nonneg_int_stats c =
     (maxHp c \<in> \<int> \<and> 0 \<le> maxHp c \<and> atk c \<in> \<int> \<and> 0 \<le> atk c \<and> def c \<in> \<int> \<and> 0 \<le> def c
      \<and> agi c \<in> \<int> \<and> 0 \<le> agi c \<and> speed c \<in> \<int> \<and> 0 \<le> speed c)"

definition hp_in_range :: "combatant \<Rightarrow> bool" where
  "hp_in_range c = (0 \<le> hp c \<and> hp c \<le> maxHp c)"

text \<open>The states of the manager: any number of calls of its two operations, from the
  empty registry, with any arguments. (A \<open>submitAction\<close> that raises does so inside
  \<open>setAction\<close>, before anything is written: it adds no state.)\<close>

inductive reachable :: "manager \<Rightarrow> bool" where
  reach_new: "reachable new_BattleManager"
| reach_start:
    "reachable m \<Longrightarrow> startBattle m charA charB rng = (m', r, rng') \<Longrightarrow> reachable m'"
| reach_submit:
    "reachable m \<Longrightarrow> submitAction m p act rng = Inr (m', r, rng') \<Longrightarrow> reachable m'"

text \<open>An identity is in the participant map iff it is part of exactly one battle of the
  registry that is not finished.\<close>

definition registry_inv :: "manager \<Rightarrow> bool" where
  "registry_inv m =
     (\<forall>p. (battleIdByPlayer m p \<noteq> None) =
           (\<exists>!bid. \<exists>b. battlesById m bid = Some b \<and> \<not> isFinished b
                       \<and> (p = id' (playerA b) \<or> p = id' (playerB b))))"

text \<open>The invariant that carries the induction: every registered battle is live, stored
  under the key of its pair, with well-formed slots, and both its players point at it;
  every entry of the participant map points at a battle of which it is a player.\<close>

definition mgr_inv :: "manager \<Rightarrow> bool" where
  "mgr_inv m =
     ((\<forall>bid b. battlesById m bid = Some b \<longrightarrow>
          \<not> isFinished b \<and> wf_slots b
          \<and> bid = makeBattleId (id' (playerA b)) (id' (playerB b))
          \<and> battleIdByPlayer m (id' (playerA b)) = Some bid
          \<and> battleIdByPlayer m (id' (playerB b)) = Some bid)
      \<and> (\<forall>p bid. battleIdByPlayer m p = Some bid \<longrightarrow>
          (\<exists>b. battlesById m bid = Some b \<and> (p = id' (playerA b) \<or> p = id' (playerB b)))))"

text \<open>A character without its current hp: what a battle never changes of a player.\<close>

definition sheet :: "combatant \<Rightarrow> combatant" where
  "sheet c = c\<lparr>hp := 0\<rparr>"

text \<open>\<open>b'\<close> is \<open>b\<close> up to the hp of the two players.\<close>

definition hp_frame :: "battle \<Rightarrow> battle \<Rightarrow> bool" where
  "hp_frame b b' =
     (b' = b\<lparr>playerA := (playerA b)\<lparr>hp := hp (playerA b')\<rparr>,
            playerB := (playerB b)\<lparr>hp := hp (playerB b')\<rparr>\<rparr>)"

text \<open>A round of the sample battle in which the first player attacks and the second
  evades, as it stands when \<open>resolveRound\<close> starts.\<close>

definition evade_round :: battle where
  "evade_round = (fst (new_Battle char_sawa_2 char_sawa (sconst 0)))
      \<lparr>actions := [(id' char_sawa_2, Some ACTION_ATTACK), (id' char_sawa, Some ACTION_EVADE)]\<rparr>"

text \<open>
  A short battle: the first sample character against a character of 20 hp, every draw 0
  (every roll succeeds, every hit is a crit). \<open>short_battle_waiting\<close> is the battle after
  the first player chose Attack, \<open>short_battle_done\<close> after the second did too: the faster
  \<open>Weak\<close> hits for 33, then \<open>Sawa\<close> hits for 30 and wins.
\<close>

definition char_weak :: combatant where
  "char_weak = \<lparr>id' = ''weak@mastodon.social'', name = ''Weak'', maxHp = 20, hp = 20,
     atk = 22, def = 9, agi = 28, speed = 20, crit = Some (12 / 100)\<rparr>"

definition short_battle :: battle where
  "short_battle = fst (new_Battle char_sawa_2 char_weak (sconst 0))"

definition short_battle_waiting :: battle where
  "short_battle_waiting =
     short_battle\<lparr>actions := [(id' char_sawa_2, Some ACTION_ATTACK), (id' char_weak, None)]\<rparr>"

definition short_battle_done :: battle where
  "short_battle_done =
     short_battle\<lparr>playerA := char_sawa_2\<lparr>hp := 67\<rparr>, playerB := char_weak\<lparr>hp := 0\<rparr>,
       actions := [(id' char_sawa_2, Some ACTION_ATTACK), (id' char_weak, Some ACTION_ATTACK)],
       isFinished := True, winnerId := Some (id' char_sawa_2)\<rparr>"

text \<open>The log of the one round of the short battle; and two battles with both actions set,
  as \<open>resolveRound\<close> finds them: the short battle, and the battle of the two sample
  characters.\<close>

definition short_log :: "line list" where
  "short_log = [RoundHeader 1,
     Declared ''Sawa'' (Some ''attack'') ''Weak'' (Some ''attack''), Blank,
     AttackHit ''Weak'' ''Sawa'' 33 True None, AttackHit ''Sawa'' ''Weak'' 30 True None,
     Blank, FinishWin ''Sawa'' ''Weak'' (Status ''Sawa'' 67 100 ''Weak'' 0 20)]"

definition short_battle_ready :: battle where
  "short_battle_ready =
     short_battle\<lparr>actions := [(id' char_sawa_2, Some ACTION_ATTACK), (id' char_weak, Some ACTION_ATTACK)]\<rparr>"

definition sample_battle_ready :: battle where
  "sample_battle_ready =
     (fst (new_Battle char_sawa_2 char_sawa (sconst 0)))
       \<lparr>actions := [(id' char_sawa_2, Some ACTION_ATTACK), (id' char_sawa, Some ACTION_ATTACK)]\<rparr>"

text \<open>The registry after the battle of the two sample characters was started.\<close>

definition sample_mgr :: manager where
  "sample_mgr = fst (startBattle new_BattleManager char_sawa_2 char_sawa (sconst 0))"

text \<open>The registry after the short battle was started, and after its first player chose
  Attack.\<close>

definition short_mgr :: manager where
  "short_mgr = fst (startBattle new_BattleManager char_sawa_2 char_weak (sconst 0))"

definition short_mgr_waiting :: manager where
  "short_mgr_waiting =
     short_mgr\<lparr>battlesById := (battlesById short_mgr)
        (makeBattleId (id' char_sawa_2) (id' char_weak) \<mapsto> short_battle_waiting)\<rparr>"

text \<open>A character whose id is the name of the method \<open>setAction\<close> calls on the slots, and
  its battle against the first sample character.\<close>

definition char_shadow :: combatant where
  "char_shadow = char_weak\<lparr>id' := ''hasOwnProperty''\<rparr>"

definition shadow_battle :: battle where
  "shadow_battle = fst (new_Battle char_sawa_2 char_shadow (sconst 0))"

text \<open>A player of a battle is the character \<open>c0\<close> it was created from, with an integer hp
  in \<open>[0, maxHp]\<close>.\<close>

definition fit_for :: "combatant \<Rightarrow> combatant \<Rightarrow> bool" where
  "fit_for c0 p = (sheet p = sheet c0 \<and> hp_in_range p \<and> hp p \<in> \<int>)"

text \<open>A round of the sample battle in which the slower \<open>Sawa\<close> (speed 18, atk 20) attacks
  and \<open>Sawa 2\<close> (speed 20, hp 90, def 9) defends.\<close>

definition defend_round :: battle where
  "defend_round = (fst (new_Battle char_sawa_2 char_sawa (sconst 0)))
      \<lparr>actions := [(id' char_sawa_2, Some ACTION_ATTACK), (id' char_sawa, Some ACTION_DEFEND)]\<rparr>"

section \<open>Lemmas on slots, frames and the structure of a call\<close>

text \<open>
  The slots behave as a map on their keys. \<open>processSingleAction\<close> changes at most the hp of
  the defender, by the damage of one \<open>calcDamage\<close>; \<open>resolveRound\<close> is two such steps
  around \<open>checkEnd\<close> and never raises; \<open>setAction\<close> rejects, waits or resolves. The two
  structure lemmas carry any property \<open>P\<close> that \<open>processSingleAction\<close> preserves through a
  round.
\<close>

lemma map_of_set_slot: "map_of (set_slot k v ps) = (map_of ps)(k \<mapsto> v)"
  by (induction ps) (auto simp: fun_eq_iff)

lemma keys_set_slot: "fst ` set (set_slot k v ps) = insert k (fst ` set ps)"
  by (induction ps) auto

lemma distinct_set_slot: "distinct (map fst ps) \<Longrightarrow> distinct (map fst (set_slot k v ps))"
  by (induction ps) (auto simp: keys_set_slot)

lemma slot_set_slot: "slot (set_slot k v ps) k' = (if k' = k then v else slot ps k')"
  by (simp add: slot_def map_of_set_slot)

lemma hasOwnProperty_keys:
  "hasOwnProperty acts k =
     (if ''hasOwnProperty'' \<in> fst ` set acts then Inl TypeError else Inr (k \<in> fst ` set acts))"
  by (simp add: hasOwnProperty_def map_of_eq_None_iff)

lemma setHp_fields [simp]:
  "turnOrder (setHp b t v) = turnOrder b"
  "actions (setHp b t v) = actions b"
  "round' (setHp b t v) = round' b"
  "isFinished (setHp b t v) = isFinished b"
  "winnerId (setHp b t v) = winnerId b"
  by (cases t; simp add: setHp_def)+

lemma setHp_players:
  "playerA (setHp b t v) = (if t = SideA then (playerA b)\<lparr>hp := v\<rparr> else playerA b)"
  "playerB (setHp b t v) = (if t = SideB then (playerB b)\<lparr>hp := v\<rparr> else playerB b)"
  by (cases t; simp add: setHp_def)+

lemma checkEnd_False: "snd (checkEnd b) = False \<Longrightarrow> fst (checkEnd b) = b"
  by (auto simp: checkEnd_def split: if_splits)

lemma checkEnd_snd: "snd (checkEnd b) = (hp (playerA b) \<le> 0 \<or> hp (playerB b) \<le> 0)"
  by (auto simp: checkEnd_def)

lemma checkEnd_fst:
  "fst (checkEnd b) =
    (if hp (playerA b) \<le> 0 \<or> hp (playerB b) \<le> 0
     then b\<lparr>isFinished := True,
            winnerId := (if hp (playerA b) \<le> 0 \<and> hp (playerB b) \<le> 0 then None
                         else if hp (playerA b) \<le> 0 then Some (id' (playerB b))
                         else Some (id' (playerA b)))\<rparr>
     else b)"
  by (auto simp: checkEnd_def)


lemma processSingleAction_shape:
  "fst (processSingleAction b s t rng) = b
   \<or> (\<exists>act r. fst (processSingleAction b s t rng)
          = setHp b t (max 0 (hp (getP b t) - fst (fst (calcDamage (getP b s) (getP b t) act r)))))"
  by (auto simp: processSingleAction_def Let_def case_prod_beta)


lemma hp_upd_frame:
  "b' = setHp b t v \<Longrightarrow>
     b' = b\<lparr>playerA := (playerA b)\<lparr>hp := hp (playerA b')\<rparr>, playerB := (playerB b)\<lparr>hp := hp (playerB b')\<rparr>\<rparr>"
  by (cases t) (simp_all add: setHp_def)

lemma processSingleAction_frame:
  "fst (processSingleAction b s t rng)
     = b\<lparr>playerA := (playerA b)\<lparr>hp := hp (playerA (fst (processSingleAction b s t rng)))\<rparr>,
         playerB := (playerB b)\<lparr>hp := hp (playerB (fst (processSingleAction b s t rng)))\<rparr>\<rparr>"
  using processSingleAction_shape [of b s t rng] hp_upd_frame by auto 


lemma checkEnd_idem:
  "snd (checkEnd (fst (checkEnd b))) = snd (checkEnd b)"
  "fst (checkEnd (fst (checkEnd b))) = fst (checkEnd b)"
  by (simp_all add: checkEnd_def)

lemma finishMessage_checkEnd:
  "snd (checkEnd b) \<Longrightarrow>
     finishMessage (fst (checkEnd b))
       = Inr (if hp (playerA b) \<le> 0 \<and> hp (playerB b) \<le> 0 then FinishDraw (statusLine b)
              else if hp (playerA b) \<le> 0
              then FinishWin (name (if id' (playerA b) = id' (playerB b) then playerA b else playerB b))
                             (name (if id' (playerA b) = id' (playerB b) then playerB b else playerA b))
                             (statusLine b)
              else FinishWin (name (playerA b)) (name (playerB b)) (statusLine b))"
  by (auto simp: checkEnd_fst checkEnd_snd finishMessage_def getPlayer_def getOpponent_def Let_def statusLine_def)

lemma resolveRound_eq:
  "resolveRound b rng =
     (let first = fst (turnOrder b); second = snd (turnOrder b);
          p1 = processSingleAction b first second rng;
          p2 = (if snd (checkEnd (fst p1)) then (fst p1, [], snd (snd p1))
                else processSingleAction (fst p1) second first (snd (snd p1)));
          b3 = fst p2;
          log = [RoundHeader (round' b),
                 Declared (name (playerA b)) (slot (actions b) (id' (playerA b)))
                          (name (playerB b)) (slot (actions b) (id' (playerB b))), Blank]
                @ fst (snd p1) @ fst (snd p2)
      in if snd (checkEnd b3)
         then (case finishMessage (fst (checkEnd b3)) of
                 Inl e \<Rightarrow> Inl e
               | Inr fin \<Rightarrow> Inr (fst (checkEnd b3), log @ [Blank, fin], snd (snd p2)))
         else Inr (resetActions (b3\<lparr>round' := round' b3 + 1\<rparr>),
                   log @ [Blank, statusLine (resetActions (b3\<lparr>round' := round' b3 + 1\<rparr>)), NextRoundPrompt],
                   snd (snd p2)))"
proof (cases "snd (checkEnd (fst (processSingleAction b (fst (turnOrder b)) (snd (turnOrder b)) rng)))")
  case True
  then show ?thesis
    by (simp add: resolveRound_def Let_def case_prod_beta checkEnd_idem split: sum.splits)
next
  case False
  then show ?thesis
    by (simp add: resolveRound_def Let_def case_prod_beta checkEnd_False split: sum.splits)
qed



lemma resolveRound_struct:
  assumes step: "\<And>b s t r. P b \<Longrightarrow> P (fst (processSingleAction b s t r))" and "P b"
  shows "\<exists>b3 log rng'. P b3 \<and>
           resolveRound b rng
             = Inr (if snd (checkEnd b3) then fst (checkEnd b3)
                    else resetActions (b3\<lparr>round' := round' b3 + 1\<rparr>), log, rng')"
proof -
  define p1 where "p1 = processSingleAction b (fst (turnOrder b)) (snd (turnOrder b)) rng"
  define p2 where "p2 = (if snd (checkEnd (fst p1)) then (fst p1, [], snd (snd p1))
                else processSingleAction (fst p1) (snd (turnOrder b)) (fst (turnOrder b)) (snd (snd p1)))"
  have P1: "P (fst p1)" unfolding p1_def using assms by blast
  have P2: "P (fst p2)" unfolding p2_def using P1 step by simp
  obtain fin where "snd (checkEnd (fst p2)) \<Longrightarrow> finishMessage (fst (checkEnd (fst p2))) = Inr fin"
    using finishMessage_checkEnd by blast
  then show ?thesis
    using P2 unfolding resolveRound_eq [of b rng] Let_def p1_def [symmetric] p2_def [symmetric]
    by (cases "snd (checkEnd (fst p2))") auto
qed


lemma sheet_fields:
  "id' (sheet c) = id' c" "name (sheet c) = name c" "maxHp (sheet c) = maxHp c"
  "atk (sheet c) = atk c" "def (sheet c) = def c" "agi (sheet c) = agi c"
  "speed (sheet c) = speed c" "crit (sheet c) = crit c"
  by (simp_all add: sheet_def)

lemma sheet_eqD:
  assumes "sheet c = sheet c'"
  shows "id' c = id' c'" "name c = name c'" "maxHp c = maxHp c'"
  "atk c = atk c'" "def c = def c'" "agi c = agi c'"
  "speed c = speed c'" "crit c = crit c'"
  using sheet_fields [of c, symmetric] sheet_fields [of c'] assms by simp_all

lemma sheet_hp_update [simp]: "sheet (c\<lparr>hp := v\<rparr>) = sheet c"
  by (simp add: sheet_def)

lemma hp_frame_refl: "hp_frame b b"
  by (simp add: hp_frame_def)

lemma hp_frame_fields:
  assumes "hp_frame b b'"
  shows "turnOrder b' = turnOrder b" "actions b' = actions b" "round' b' = round' b"
    "isFinished b' = isFinished b" "winnerId b' = winnerId b"
    "sheet (playerA b') = sheet (playerA b)"
    "sheet (playerB b') = sheet (playerB b)"
proof -
  obtain x y where e: "b' = b\<lparr>playerA := (playerA b)\<lparr>hp := x\<rparr>, playerB := (playerB b)\<lparr>hp := y\<rparr>\<rparr>"
    using assms unfolding hp_frame_def by blast
  show "turnOrder b' = turnOrder b" "actions b' = actions b" "round' b' = round' b"
    "isFinished b' = isFinished b" "winnerId b' = winnerId b"
    "sheet (playerA b') = sheet (playerA b)"
    "sheet (playerB b') = sheet (playerB b)"
    by (simp_all add: e)
qed

lemma hp_frame_processSingleAction:
  "hp_frame b x \<Longrightarrow> hp_frame b (fst (processSingleAction x s t r))"
proof -
  assume a: "hp_frame b x"
  obtain u v where e: "x = b\<lparr>playerA := (playerA b)\<lparr>hp := u\<rparr>, playerB := (playerB b)\<lparr>hp := v\<rparr>\<rparr>"
    using a unfolding hp_frame_def by blast
  obtain u' v' where e': "fst (processSingleAction x s t r)
      = x\<lparr>playerA := (playerA x)\<lparr>hp := u'\<rparr>, playerB := (playerB x)\<lparr>hp := v'\<rparr>\<rparr>"
    using processSingleAction_frame [of x s t r] by blast
  show ?thesis unfolding e' unfolding e hp_frame_def by simp
qed

lemma keys_set_slot_own: "p \<in> fst ` set acts \<Longrightarrow> fst ` set (set_slot p v acts) = fst ` set acts"
  by (auto simp: keys_set_slot)

lemma getOpponent_Some:
  "p = id' (playerA b) \<or> p = id' (playerB b) \<Longrightarrow> \<exists>other. getOpponent b (Some p) = Some other"
  by (auto simp: getOpponent_def)

text \<open>\<open>setAction\<close> by the keys of the slots: it raises at the \<^verbatim>\<open>hasOwnProperty\<close> call iff the
  battle is not finished and a key of the slots is \<^verbatim>\<open>'hasOwnProperty'\<close>.\<close>

lemma setAction_unfold:
  "setAction b p act rng =
     (if isFinished b then Inr (b, (True, AlreadyFinished), rng)
      else if ''hasOwnProperty'' \<in> fst ` set (actions b) then Inl TypeError
      else if p \<notin> fst ` set (actions b) then Inr (b, (False, NotParticipant), rng)
      else if act \<notin> set ACTION_values then Inr (b, (False, InvalidAction), rng)
      else (let b1 = b\<lparr>actions := set_slot p (Some act) (actions b)\<rparr>
            in if \<not> isReady b1
               then (case getOpponent b1 (Some p) of
                       None \<Rightarrow> Inl TypeError
                     | Some other \<Rightarrow>
                         (let otherAction = slot (actions b1) (id' other);
                              waitMsg = (if otherAction \<noteq> None \<and> otherAction \<noteq> Some []
                                         then BothChosenOdd else WaitingForOpponent)
                          in Inr (b1, (False, waitMsg), rng)))
               else (case resolveRound b1 rng of
                       Inl e \<Rightarrow> Inl e
                     | Inr (b2, result, rng') \<Rightarrow> Inr (b2, (True, RoundLog result), rng'))))"
  by (simp add: setAction_def hasOwnProperty_keys)

lemma setAction_Inr_callable:
  "setAction b p act rng = Inr r \<Longrightarrow> isFinished b \<or> ''hasOwnProperty'' \<notin> fst ` set (actions b)"
  by (auto simp: setAction_unfold split: if_splits)

lemma setAction_struct:
  assumes step: "\<And>b s t r. P b \<Longrightarrow> P (fst (processSingleAction b s t r))"
    and base: "P (b\<lparr>actions := set_slot p (Some act) (actions b)\<rparr>)"
    and wf: "fst ` set (actions b) \<subseteq> {id' (playerA b), id' (playerB b)}"
    and callable: "isFinished b \<or> ''hasOwnProperty'' \<notin> fst ` set (actions b)"
  shows "\<exists>b' res rng'. setAction b p act rng = Inr (b', res, rng') \<and>
           ((b' = b \<and> rng' = rng
               \<and> (isFinished b \<or> p \<notin> fst ` set (actions b) \<or> act \<notin> set ACTION_values)
               \<and> res \<in> {(True, AlreadyFinished), (False, NotParticipant), (False, InvalidAction)})
            \<or> (\<not> isFinished b \<and> p \<in> fst ` set (actions b) \<and> act \<in> set ACTION_values
                 \<and> b' = b\<lparr>actions := set_slot p (Some act) (actions b)\<rparr> \<and> \<not> isReady b'
                 \<and> rng' = rng \<and> fst res = False)
            \<or> (\<not> isFinished b \<and> p \<in> fst ` set (actions b) \<and> act \<in> set ACTION_values
                 \<and> isReady (b\<lparr>actions := set_slot p (Some act) (actions b)\<rparr>)
                 \<and> (\<exists>b3 log rng3. P b3 \<and> res = (True, RoundLog log)
                        \<and> resolveRound (b\<lparr>actions := set_slot p (Some act) (actions b)\<rparr>) rng
                            = Inr (b', log, rng3)
                        \<and> b' = (if snd (checkEnd b3) then fst (checkEnd b3)
                                else resetActions (b3\<lparr>round' := round' b3 + 1\<rparr>)))))"
proof -
  define b1 where "b1 = b\<lparr>actions := set_slot p (Some act) (actions b)\<rparr>"
  consider (rej) "isFinished b \<or> p \<notin> fst ` set (actions b) \<or> act \<notin> set ACTION_values"
    | (wait) "\<not> isFinished b" "p \<in> fst ` set (actions b)" "act \<in> set ACTION_values" "\<not> isReady b1"
    | (res) "\<not> isFinished b" "p \<in> fst ` set (actions b)" "act \<in> set ACTION_values" "isReady b1"
    by blast
  then show ?thesis
  proof cases
    case rej
    then show ?thesis using callable by (auto simp: setAction_unfold)
  next
    case wait
    have "p = id' (playerA b1) \<or> p = id' (playerB b1)"
      using wait(2) wf by (auto simp: b1_def)
    then obtain other where "getOpponent b1 (Some p) = Some other"
      using getOpponent_Some by blast
    then show ?thesis using wait callable
      by (simp add: setAction_unfold b1_def [symmetric] Let_def)
  next
    case res
    obtain b3 log rng' where r: "P b3"
      "resolveRound b1 rng = Inr (if snd (checkEnd b3) then fst (checkEnd b3)
                    else resetActions (b3\<lparr>round' := round' b3 + 1\<rparr>), log, rng')"
      using resolveRound_struct [of P b1 rng] step base unfolding b1_def by blast
    show ?thesis using res r callable
      by (simp add: setAction_unfold b1_def [symmetric] Let_def) blast
  qed
qed


lemma checkEnd_static:
  "turnOrder (fst (checkEnd b)) = turnOrder b" "actions (fst (checkEnd b)) = actions b"
  "round' (fst (checkEnd b)) = round' b"
  "playerA (fst (checkEnd b)) = playerA b" "playerB (fst (checkEnd b)) = playerB b"
  by (simp_all add: checkEnd_fst)

lemma resetActions_static:
  "turnOrder (resetActions b) = turnOrder b" "isFinished (resetActions b) = isFinished b"
  "round' (resetActions b) = round' b" "winnerId (resetActions b) = winnerId b"
  "playerA (resetActions b) = playerA b" "playerB (resetActions b) = playerB b"
  "fst ` set (actions (resetActions b))
     = insert (id' (playerA b)) (insert (id' (playerB b)) (fst ` set (actions b)))"
  "slot (actions (resetActions b)) (id' (playerA b)) = None"
  "slot (actions (resetActions b)) (id' (playerB b)) = None"
  by (auto simp: resetActions_def keys_set_slot slot_set_slot)

text \<open>What every returning setAction keeps: the players up to their hp, the turn order, and
  the keys of the slots.\<close>
lemma setAction_static:
  assumes wf: "wf_slots b" and s: "setAction b p act rng = Inr (b', res, rng')"
  shows "wf_slots b' \<and> turnOrder b' = turnOrder b
         \<and> sheet (playerA b') = sheet (playerA b)
         \<and> sheet (playerB b') = sheet (playerB b)"
proof -
  define b1 where "b1 = b\<lparr>actions := set_slot p (Some act) (actions b)\<rparr>"
  have sub: "fst ` set (actions b) \<subseteq> {id' (playerA b), id' (playerB b)}"
    using wf by (simp add: wf_slots_def)
  have "hp_frame b1 (b\<lparr>actions := set_slot p (Some act) (actions b)\<rparr>)"
    unfolding b1_def by (rule hp_frame_refl)
  note st = setAction_struct [where P = "hp_frame b1" and b = b and p = p and act = act and rng = rng,
      OF hp_frame_processSingleAction this sub setAction_Inr_callable [OF s], unfolded s]
  from st consider (rej) "b' = b"
    | (wait) "p \<in> fst ` set (actions b)" "b' = b1"
    | (res) b3 where "p \<in> fst ` set (actions b)" "hp_frame b1 b3"
        "b' = (if snd (checkEnd b3) then fst (checkEnd b3)
                                else resetActions (b3\<lparr>round' := round' b3 + 1\<rparr>))"
    unfolding b1_def by auto
  then show ?thesis
  proof cases
    case rej
    then show ?thesis using wf by simp
  next
    case wait
    then show ?thesis using wf
      by (simp add: b1_def wf_slots_def keys_set_slot_own distinct_set_slot)
  next
    case res
    have k1: "fst ` set (actions b1) = {id' (playerA b), id' (playerB b)}"
      using wf res(1) by (simp add: b1_def wf_slots_def keys_set_slot_own)
    have d1: "distinct (map fst (actions b1))"
      using wf by (simp add: b1_def wf_slots_def distinct_set_slot)
    note f = hp_frame_fields [OF res(2)]
    have pa: "sheet (playerA b3) = sheet (playerA b)"
      and pb: "sheet (playerB b3) = sheet (playerB b)"
      using f(6,7) by (simp_all add: b1_def)
    have ida: "id' (playerA b3) = id' (playerA b)" using sheet_eqD(1) [OF pa] .
    have idb: "id' (playerB b3) = id' (playerB b)" using sheet_eqD(1) [OF pb] .
    have t: "turnOrder b3 = turnOrder b" and a: "actions b3 = actions b1"
      using f(1,2) by (simp_all add: b1_def)
    show ?thesis
    proof (cases "snd (checkEnd b3)")
      case True
      then have e: "b' = fst (checkEnd b3)" using res(3) by simp
      show ?thesis unfolding e wf_slots_def checkEnd_static
        using t a k1 d1 pa pb ida idb by simp
    next
      case False
      then have e: "b' = resetActions (b3\<lparr>round' := round' b3 + 1\<rparr>)" using res(3) by simp
      have "distinct (map fst (actions (resetActions (b3\<lparr>round' := round' b3 + 1\<rparr>))))"
        using d1 a by (simp add: resetActions_def distinct_set_slot)
      then show ?thesis unfolding e wf_slots_def resetActions_static
        using t a k1 pa pb ida idb by auto
    qed
  qed
qed

text \<open>With well-formed slots the only exception of \<open>setAction\<close> is the one of the
  \<^verbatim>\<open>hasOwnProperty\<close> call, raised before anything is written: the call returns iff the
  battle is finished or no player has the id \<^verbatim>\<open>'hasOwnProperty'\<close>.\<close>

lemma setAction_total:
  assumes wf: "wf_slots b"
    and callable: "isFinished b \<or> (id' (playerA b) \<noteq> ''hasOwnProperty'' \<and> id' (playerB b) \<noteq> ''hasOwnProperty'')"
  shows "\<exists>b' res rng'. setAction b p act rng = Inr (b', res, rng')"
proof -
  have "isFinished b \<or> ''hasOwnProperty'' \<notin> fst ` set (actions b)"
    using wf callable by (auto simp: wf_slots_def)
  then show ?thesis
    using setAction_struct [where P = "\<lambda>_. True" and b = b and p = p and act = act and rng = rng] wf
    by (auto simp: wf_slots_def)
qed

lemma setAction_raises:
  assumes wf: "wf_slots b" and "\<not> isFinished b"
    and "id' (playerA b) = ''hasOwnProperty'' \<or> id' (playerB b) = ''hasOwnProperty''"
  shows "setAction b p act rng = Inl TypeError"
proof -
  have "''hasOwnProperty'' \<in> fst ` set (actions b)"
    using wf assms(3) by (auto simp: wf_slots_def)
  then show ?thesis using assms(2) by (simp add: setAction_unfold)
qed

lemma new_Battle_fields:
  "playerA (fst (new_Battle a c rng)) = a" "playerB (fst (new_Battle a c rng)) = c"
  "turnOrder (fst (new_Battle a c rng)) = fst (decideOrder a c rng)"
  "actions (fst (new_Battle a c rng)) = set_slot (id' c) None (set_slot (id' a) None [])"
  "round' (fst (new_Battle a c rng)) = 1" "isFinished (fst (new_Battle a c rng)) = False"
  "winnerId (fst (new_Battle a c rng)) = None"
  "snd (new_Battle a c rng) = snd (decideOrder a c rng)"
  by (simp_all add: new_Battle_def case_prod_beta)

lemma new_Battle_wf: "wf_slots (fst (new_Battle a c rng))"
  by (auto simp: wf_slots_def new_Battle_fields keys_set_slot)




lemma battle_steps_static:
  assumes "battle_steps b0 b" "wf_slots b0"
  shows "wf_slots b \<and> turnOrder b = turnOrder b0
         \<and> sheet (playerA b) = sheet (playerA b0)
         \<and> sheet (playerB b) = sheet (playerB b0)"
  using assms
proof (induction rule: battle_steps.induct)
  case (steps_refl b)
  then show ?case by simp
next
  case (steps_setAction b0 b p act rng b' res rng')
  then have ih: "wf_slots b" "turnOrder b = turnOrder b0"
    "sheet (playerA b) = sheet (playerA b0)"
    "sheet (playerB b) = sheet (playerB b0)" by simp_all
  note st = setAction_static [OF ih(1) steps_setAction(2)]
  show ?case using st ih by simp
qed


lemma processSingleAction_fields:
  "turnOrder (fst (processSingleAction b s t r)) = turnOrder b"
  "actions (fst (processSingleAction b s t r)) = actions b"
  "round' (fst (processSingleAction b s t r)) = round' b"
  "isFinished (fst (processSingleAction b s t r)) = isFinished b"
  "winnerId (fst (processSingleAction b s t r)) = winnerId b"
  "sheet (playerA (fst (processSingleAction b s t r))) = sheet (playerA b)"
  "sheet (playerB (fst (processSingleAction b s t r))) = sheet (playerB b)"
  using hp_frame_fields [OF hp_frame_processSingleAction [OF hp_frame_refl, of b s t r]]
  by simp_all

lemma battle_steps_ids:
  assumes "battle_steps (fst (new_Battle a c rng0)) b"
  shows "wf_slots b" "id' (playerA b) = id' a" "id' (playerB b) = id' c"
    "fst ` set (actions b) = {id' a, id' c}"
proof -
  note st = battle_steps_static [OF assms new_Battle_wf]
  show wf: "wf_slots b" using st by simp
  show ida: "id' (playerA b) = id' a" and idb: "id' (playerB b) = id' c"
    using st sheet_eqD(1) [of "playerA b" a] sheet_eqD(1) [of "playerB b" c]
    by (simp_all add: new_Battle_fields)
  show "fst ` set (actions b) = {id' a, id' c}"
    using wf ida idb by (simp add: wf_slots_def)
qed

section \<open>Lemmas on the sample battles\<close>

text \<open>The sample battles, evaluated call by call.\<close>

lemmas engine_defs = setAction_def resolveRound_def processSingleAction_def calcDamage_def
  isAttackHit_def tryEvade_def tryDefend_def checkEnd_def finishMessage_def statusLine_def
  resetActions_def isReady_def getOpponent_def getPlayer_def getP_def setHp_def slot_def
  hasOwnProperty_def ACTION_values_def ACTION_ATTACK_def ACTION_DEFEND_def ACTION_EVADE_def
  new_Battle_def decideOrder_def

lemmas sample_defs = char_sawa_2_def char_sawa_def char_weak_def short_battle_def
  short_battle_waiting_def short_battle_done_def

lemma short_step1:
  "setAction short_battle (id' char_sawa_2) ACTION_ATTACK (sconst 0)
     = Inr (short_battle_waiting, (False, WaitingForOpponent), sconst 0)"
  by (simp add: sample_defs engine_defs Let_def)

lemma short_step2:
  "setAction short_battle_waiting (id' char_weak) ACTION_ATTACK (sconst 0)
     = Inr (short_battle_done, (True, RoundLog short_log), sconst 0)"
  by (simp add: sample_defs short_log_def engine_defs Let_def)

lemma short_steps_waiting: "battle_steps (fst (new_Battle char_sawa_2 char_weak (sconst 0))) short_battle_waiting"
  using steps_setAction [OF steps_refl short_step1] by (simp add: short_battle_def)

lemma short_steps_done: "battle_steps (fst (new_Battle char_sawa_2 char_weak (sconst 0))) short_battle_done"
  using steps_setAction [OF short_steps_waiting short_step2] .




lemma decideOrder_cases:
  "(speed a > speed c \<longrightarrow> decideOrder a c rng = ((SideA, SideB), rng))
 \<and> (speed c > speed a \<longrightarrow> decideOrder a c rng = ((SideB, SideA), rng))
 \<and> (speed a = speed c \<longrightarrow> decideOrder a c rng
        = (if shd rng < 1 / 2 then (SideA, SideB) else (SideB, SideA), stl rng))"
  by (auto simp: decideOrder_def)


lemmas action_defs = processSingleAction_def calcDamage_def
  isAttackHit_def tryEvade_def tryDefend_def getP_def setHp_def slot_def
  ACTION_ATTACK_def ACTION_DEFEND_def ACTION_EVADE_def

lemmas ready_defs = short_battle_ready_def sample_battle_ready_def short_battle_def
  char_sawa_2_def char_sawa_def char_weak_def

lemma short_ready_order: "turnOrder short_battle_ready = (SideB, SideA)"
  by (simp add: ready_defs new_Battle_fields decideOrder_def)

lemma sample_ready_order: "turnOrder sample_battle_ready = (SideB, SideA)"
  by (simp add: ready_defs new_Battle_fields decideOrder_def)

lemma short_ready_first:
  "processSingleAction short_battle_ready SideB SideA (sconst 0)
     = (short_battle_ready\<lparr>playerA := char_sawa_2\<lparr>hp := 67\<rparr>\<rparr>,
        [AttackHit ''Weak'' ''Sawa'' 33 True None], sconst 0)"
  by (simp add: ready_defs new_Battle_fields action_defs Let_def)

lemma short_ready_second:
  "processSingleAction (short_battle_ready\<lparr>playerA := char_sawa_2\<lparr>hp := 67\<rparr>\<rparr>) SideA SideB (sconst 0)
     = (short_battle_ready\<lparr>playerA := char_sawa_2\<lparr>hp := 67\<rparr>, playerB := char_weak\<lparr>hp := 0\<rparr>\<rparr>,
        [AttackHit ''Sawa'' ''Weak'' 30 True None], sconst 0)"
  by (simp add: ready_defs new_Battle_fields action_defs Let_def)

lemma sample_ready_first:
  "processSingleAction sample_battle_ready SideB SideA (sconst 0)
     = (sample_battle_ready\<lparr>playerA := char_sawa_2\<lparr>hp := 67\<rparr>\<rparr>,
        [AttackHit ''Sawa 2'' ''Sawa'' 33 True None], sconst 0)"
  by (simp add: ready_defs new_Battle_fields action_defs Let_def)

lemma sample_ready_second:
  "processSingleAction (sample_battle_ready\<lparr>playerA := char_sawa_2\<lparr>hp := 67\<rparr>\<rparr>) SideA SideB (sconst 0)
     = (sample_battle_ready\<lparr>playerA := char_sawa_2\<lparr>hp := 67\<rparr>, playerB := char_sawa\<lparr>hp := 60\<rparr>\<rparr>,
        [AttackHit ''Sawa'' ''Sawa 2'' 30 True None], sconst 0)"
  by (simp add: ready_defs new_Battle_fields action_defs Let_def)


section \<open>Lemmas on the registry\<close>

text \<open>
  The key of a pair, the two outcomes of \<open>startBattle\<close> and of \<open>submitAction\<close>, and the
  invariant \<open>mgr_inv\<close>: it holds for the empty registry, both operations keep it, and it
  gives \<open>registry_inv\<close>.
\<close>

lemma makeBattleId_commute: "makeBattleId x y = makeBattleId y x"
  by (cases "x \<le> y"; cases "y \<le> x") (auto simp: makeBattleId_def)

lemma makeBattleId_eq:
  "makeBattleId x y = (if x \<le> y then x @ ''__'' @ y else y @ ''__'' @ x)"
  by (auto simp: makeBattleId_def)

lemma makeBattleId_nonempty: "makeBattleId x y \<noteq> []"
  by (simp add: makeBattleId_eq)

lemma startBattle_in_progress:
  "battlesById m (makeBattleId (id' a) (id' c)) \<noteq> None \<Longrightarrow>
     startBattle m a c rng
       = (m, \<lparr>ok = False, message = AlreadyInProgress, battleId = makeBattleId (id' a) (id' c)\<rparr>, rng)"
  by (simp add: startBattle_def Let_def)

lemma startBattle_success:
  "battlesById m (makeBattleId (id' a) (id' c)) = None \<Longrightarrow>
   battleIdByPlayer m (id' a) = None \<Longrightarrow> battleIdByPlayer m (id' c) = None \<Longrightarrow>
     startBattle m a c rng
       = (m\<lparr>battlesById := (battlesById m)(makeBattleId (id' a) (id' c) \<mapsto> fst (new_Battle a c rng)),
            battleIdByPlayer := ((battleIdByPlayer m)(id' a \<mapsto> makeBattleId (id' a) (id' c)))
                                   (id' c \<mapsto> makeBattleId (id' a) (id' c))\<rparr>,
          \<lparr>ok = True,
           message = Intro (name a) (name c)
                       (name (getP (fst (new_Battle a c rng)) (fst (turnOrder (fst (new_Battle a c rng))))))
                       (statusLine (fst (new_Battle a c rng))),
           battleId = makeBattleId (id' a) (id' c)\<rparr>,
          snd (new_Battle a c rng))"
  by (simp add: startBattle_def Let_def case_prod_beta new_Battle_fields)

lemma startBattle_ok_iff:
  "ok (fst (snd (startBattle m a c rng)))
     = (battlesById m (makeBattleId (id' a) (id' c)) = None
        \<and> battleIdByPlayer m (id' a) = None \<and> battleIdByPlayer m (id' c) = None)"
  by (auto simp: startBattle_def Let_def case_prod_beta)

lemma startBattle_failed:
  "\<not> ok (fst (snd (startBattle m a c rng))) \<Longrightarrow> fst (startBattle m a c rng) = m"
  by (auto simp: startBattle_def Let_def case_prod_beta split: if_splits)


lemma sample_key:
  "makeBattleId (id' char_sawa_2) (id' char_sawa) = ''sawa_2@mastodon.social__sawa_@mastodon.social''"
  by (simp add: makeBattleId_eq char_sawa_2_def char_sawa_def)


lemma findBattleForPlayer_Some_iff:
  "(findBattleForPlayer m p = Some (key, b))
     = (battleIdByPlayer m p = Some key \<and> key \<noteq> [] \<and> battlesById m key = Some b)"
  by (auto simp: findBattleForPlayer_def split: option.splits if_splits)

lemma submitAction_not_found:
  "findBattleForPlayer m p = None \<Longrightarrow>
     submitAction m p act rng = Inr (m, \<lparr>ok = False, message = NotInBattle\<rparr>, rng)"
  by (simp add: submitAction_def)

lemma submitAction_found:
  assumes "findBattleForPlayer m p = Some (key, b)" "setAction b p act rng = Inr (b', res, rng')"
  shows "submitAction m p act rng
     = Inr (if isFinished b'
            then m\<lparr>battlesById := (battlesById m)(key := None),
                   battleIdByPlayer := ((battleIdByPlayer m)(id' (playerA b') := None))
                                          (id' (playerB b') := None)\<rparr>
            else m\<lparr>battlesById := (battlesById m)(key \<mapsto> b')\<rparr>,
            \<lparr>ok = True, message = snd res\<rparr>, rng')"
  using assms unfolding findBattleForPlayer_Some_iff
  by (simp add: submitAction_def findBattleForPlayer_def Let_def)

lemma submitAction_error:
  assumes "findBattleForPlayer m p = Some (key, b)" "setAction b p act rng = Inl e"
  shows "submitAction m p act rng = Inl e"
  using assms by (simp add: submitAction_def)

lemma mgr_inv_new: "mgr_inv new_BattleManager"
  by (simp add: mgr_inv_def new_BattleManager_def)

lemma mgr_inv_start:
  assumes inv: "mgr_inv m"
  shows "mgr_inv (fst (startBattle m a c rng))"
proof (cases "ok (fst (snd (startBattle m a c rng)))")
  case False
  then show ?thesis using inv by (simp add: startBattle_failed)
next
  case True
  define key where "key = makeBattleId (id' a) (id' c)"
  define nb where "nb = fst (new_Battle a c rng)"
  have free: "battlesById m key = None" "battleIdByPlayer m (id' a) = None"
    "battleIdByPlayer m (id' c) = None"
    using True unfolding startBattle_ok_iff key_def by simp_all
  have m': "fst (startBattle m a c rng)
      = m\<lparr>battlesById := (battlesById m)(key \<mapsto> nb),
           battleIdByPlayer := ((battleIdByPlayer m)(id' a \<mapsto> key))(id' c \<mapsto> key)\<rparr>"
    using free unfolding key_def nb_def by (simp add: startBattle_success)
  have nbf: "\<not> isFinished nb" "wf_slots nb" "id' (playerA nb) = id' a" "id' (playerB nb) = id' c"
    by (simp_all add: nb_def new_Battle_fields new_Battle_wf)
  have old1: "\<not> isFinished b \<and> wf_slots b
          \<and> bid = makeBattleId (id' (playerA b)) (id' (playerB b))
          \<and> battleIdByPlayer m (id' (playerA b)) = Some bid
          \<and> battleIdByPlayer m (id' (playerB b)) = Some bid"
    if "battlesById m bid = Some b" for bid b
    using inv that unfolding mgr_inv_def by blast
  have old2: "\<exists>b. battlesById m bid = Some b \<and> (p = id' (playerA b) \<or> p = id' (playerB b))"
    if "battleIdByPlayer m p = Some bid" for p bid
    using inv that unfolding mgr_inv_def by blast
  show ?thesis unfolding m' mgr_inv_def
  proof (intro conjI allI impI)
    fix bid b
    assume "battlesById (m\<lparr>battlesById := (battlesById m)(key \<mapsto> nb),
           battleIdByPlayer := ((battleIdByPlayer m)(id' a \<mapsto> key))(id' c \<mapsto> key)\<rparr>) bid = Some b"
    then consider (new) "bid = key" "b = nb" | (old) "bid \<noteq> key" "battlesById m bid = Some b"
      by (auto split: if_splits)
    then have "\<not> isFinished b \<and> wf_slots b
          \<and> bid = makeBattleId (id' (playerA b)) (id' (playerB b))
          \<and> ((battleIdByPlayer m)(id' a \<mapsto> key, id' c \<mapsto> key)) (id' (playerA b)) = Some bid
          \<and> ((battleIdByPlayer m)(id' a \<mapsto> key, id' c \<mapsto> key)) (id' (playerB b)) = Some bid"
    proof cases
      case new
      then show ?thesis using nbf by (simp add: key_def)
    next
      case old
      note o = old1 [OF old(2)]
      have "id' (playerA b) \<noteq> id' a" "id' (playerA b) \<noteq> id' c"
        "id' (playerB b) \<noteq> id' a" "id' (playerB b) \<noteq> id' c"
        using o free by auto
      then show ?thesis using o by simp
    qed
    then show "\<not> isFinished b" "wf_slots b" "bid = makeBattleId (id' (playerA b)) (id' (playerB b))"
      "battleIdByPlayer (m\<lparr>battlesById := (battlesById m)(key \<mapsto> nb),
           battleIdByPlayer := ((battleIdByPlayer m)(id' a \<mapsto> key))(id' c \<mapsto> key)\<rparr>) (id' (playerA b)) = Some bid"
      "battleIdByPlayer (m\<lparr>battlesById := (battlesById m)(key \<mapsto> nb),
           battleIdByPlayer := ((battleIdByPlayer m)(id' a \<mapsto> key))(id' c \<mapsto> key)\<rparr>) (id' (playerB b)) = Some bid"
      by simp_all
  next
    fix p bid
    assume "battleIdByPlayer (m\<lparr>battlesById := (battlesById m)(key \<mapsto> nb),
           battleIdByPlayer := ((battleIdByPlayer m)(id' a \<mapsto> key))(id' c \<mapsto> key)\<rparr>) p = Some bid"
    then consider (new) "p = id' a \<or> p = id' c" "bid = key"
      | (old) "p \<noteq> id' a" "p \<noteq> id' c" "battleIdByPlayer m p = Some bid"
      by (auto split: if_splits)
    then show "\<exists>b. battlesById (m\<lparr>battlesById := (battlesById m)(key \<mapsto> nb),
           battleIdByPlayer := ((battleIdByPlayer m)(id' a \<mapsto> key))(id' c \<mapsto> key)\<rparr>) bid = Some b
           \<and> (p = id' (playerA b) \<or> p = id' (playerB b))"
    proof cases
      case new
      then show ?thesis using nbf by auto
    next
      case old
      obtain b where b: "battlesById m bid = Some b" "p = id' (playerA b) \<or> p = id' (playerB b)"
        using old2 [OF old(3)] by blast
      then have "bid \<noteq> key" using free by auto
      then show ?thesis using b by auto
    qed
  qed
qed


lemma mgr_inv_battle:
  assumes "mgr_inv m" "battlesById m bid = Some b"
  shows "\<not> isFinished b" "wf_slots b" "bid = makeBattleId (id' (playerA b)) (id' (playerB b))"
    "battleIdByPlayer m (id' (playerA b)) = Some bid" "battleIdByPlayer m (id' (playerB b)) = Some bid"
  using assms unfolding mgr_inv_def by blast+

lemma mgr_inv_player:
  assumes "mgr_inv m" "battleIdByPlayer m p = Some bid"
  shows "\<exists>b. battlesById m bid = Some b \<and> (p = id' (playerA b) \<or> p = id' (playerB b))"
  using assms unfolding mgr_inv_def by blast

lemma mgr_inv_submit:
  assumes inv: "mgr_inv m" and s: "submitAction m p act rng = Inr (m', r, rng')"
  shows "mgr_inv m'"
proof (cases "findBattleForPlayer m p")
  case None
  then show ?thesis using s inv by (simp add: submitAction_not_found)
next
  case (Some kb)
  obtain key b where kb: "kb = (key, b)" by (cases kb)
  have f: "findBattleForPlayer m p = Some (key, b)" using Some kb by simp
  then have reg: "battlesById m key = Some b"
    by (simp add: findBattleForPlayer_Some_iff)
  note ob = mgr_inv_battle [OF inv reg]
  obtain b' res rng2 where sa: "setAction b p act rng = Inr (b', res, rng2)"
  proof (cases "setAction b p act rng")
    case (Inl e)
    then show ?thesis using s submitAction_error [OF f Inl] by simp
  next
    case (Inr x)
    then show ?thesis using that by (cases x) auto
  qed
  note st = setAction_static [OF ob(2) sa]
  have ida: "id' (playerA b') = id' (playerA b)" and idb: "id' (playerB b') = id' (playerB b)"
    using st sheet_eqD(1) [of "playerA b'" "playerA b"] sheet_eqD(1) [of "playerB b'" "playerB b"]
    by simp_all
  have wf': "wf_slots b'" using st by simp
  show ?thesis
  proof (cases "isFinished b'")
    case True
    have m': "m' = m\<lparr>battlesById := (battlesById m)(key := None),
                   battleIdByPlayer := ((battleIdByPlayer m)(id' (playerA b) := None))
                                          (id' (playerB b) := None)\<rparr>"
      using s True unfolding submitAction_found [OF f sa] ida idb by simp
    show ?thesis unfolding m' mgr_inv_def
    proof (intro conjI allI impI)
      fix bid x
      assume "battlesById (m\<lparr>battlesById := (battlesById m)(key := None),
                   battleIdByPlayer := ((battleIdByPlayer m)(id' (playerA b) := None))
                                          (id' (playerB b) := None)\<rparr>) bid = Some x"
      then have ne: "bid \<noteq> key" and x: "battlesById m bid = Some x"
        by (auto split: if_splits)
      note ox = mgr_inv_battle [OF inv x]
      have "id' (playerA x) \<noteq> id' (playerA b)" "id' (playerA x) \<noteq> id' (playerB b)"
        "id' (playerB x) \<noteq> id' (playerA b)" "id' (playerB x) \<noteq> id' (playerB b)"
        using ox(4,5) ob(4,5) ne by auto
      then show "\<not> isFinished x" "wf_slots x" "bid = makeBattleId (id' (playerA x)) (id' (playerB x))"
        "battleIdByPlayer (m\<lparr>battlesById := (battlesById m)(key := None),
                   battleIdByPlayer := ((battleIdByPlayer m)(id' (playerA b) := None))
                                          (id' (playerB b) := None)\<rparr>) (id' (playerA x)) = Some bid"
        "battleIdByPlayer (m\<lparr>battlesById := (battlesById m)(key := None),
                   battleIdByPlayer := ((battleIdByPlayer m)(id' (playerA b) := None))
                                          (id' (playerB b) := None)\<rparr>) (id' (playerB x)) = Some bid"
        using ox by simp_all
    next
      fix q bid
      assume "battleIdByPlayer (m\<lparr>battlesById := (battlesById m)(key := None),
                   battleIdByPlayer := ((battleIdByPlayer m)(id' (playerA b) := None))
                                          (id' (playerB b) := None)\<rparr>) q = Some bid"
      then have q: "q \<noteq> id' (playerA b)" "q \<noteq> id' (playerB b)" "battleIdByPlayer m q = Some bid"
        by (auto split: if_splits)
      obtain x where x: "battlesById m bid = Some x" "q = id' (playerA x) \<or> q = id' (playerB x)"
        using mgr_inv_player [OF inv q(3)] by blast
      have "bid \<noteq> key" using x q reg by auto
      then show "\<exists>x. battlesById (m\<lparr>battlesById := (battlesById m)(key := None),
                   battleIdByPlayer := ((battleIdByPlayer m)(id' (playerA b) := None))
                                          (id' (playerB b) := None)\<rparr>) bid = Some x
              \<and> (q = id' (playerA x) \<or> q = id' (playerB x))"
        using x by auto
    qed
  next
    case False
    have m': "m' = m\<lparr>battlesById := (battlesById m)(key \<mapsto> b')\<rparr>"
      using s False unfolding submitAction_found [OF f sa] by simp
    show ?thesis unfolding m' mgr_inv_def
    proof (intro conjI allI impI)
      fix bid x
      assume "battlesById (m\<lparr>battlesById := (battlesById m)(key \<mapsto> b')\<rparr>) bid = Some x"
      then consider (new) "bid = key" "x = b'" | (old) "bid \<noteq> key" "battlesById m bid = Some x"
        by (auto split: if_splits)
      then have "\<not> isFinished x \<and> wf_slots x \<and> bid = makeBattleId (id' (playerA x)) (id' (playerB x))
          \<and> battleIdByPlayer m (id' (playerA x)) = Some bid
          \<and> battleIdByPlayer m (id' (playerB x)) = Some bid"
      proof cases
        case new
        then show ?thesis using False wf' ob ida idb by simp
      next
        case old
        then show ?thesis using mgr_inv_battle [OF inv old(2)] by simp
      qed
      then show "\<not> isFinished x" "wf_slots x" "bid = makeBattleId (id' (playerA x)) (id' (playerB x))"
        "battleIdByPlayer (m\<lparr>battlesById := (battlesById m)(key \<mapsto> b')\<rparr>) (id' (playerA x)) = Some bid"
        "battleIdByPlayer (m\<lparr>battlesById := (battlesById m)(key \<mapsto> b')\<rparr>) (id' (playerB x)) = Some bid"
        by simp_all
    next
      fix q bid
      assume "battleIdByPlayer (m\<lparr>battlesById := (battlesById m)(key \<mapsto> b')\<rparr>) q = Some bid"
      then have q: "battleIdByPlayer m q = Some bid" by simp
      obtain x where x: "battlesById m bid = Some x" "q = id' (playerA x) \<or> q = id' (playerB x)"
        using mgr_inv_player [OF inv q] by blast
      show "\<exists>x. battlesById (m\<lparr>battlesById := (battlesById m)(key \<mapsto> b')\<rparr>) bid = Some x
              \<and> (q = id' (playerA x) \<or> q = id' (playerB x))"
      proof (cases "bid = key")
        case True
        then have "x = b" using x reg by simp
        then show ?thesis using x True ida idb by simp
      next
        case False
        then show ?thesis using x by simp
      qed
    qed
  qed
qed

lemma reachable_mgr_inv: "reachable m \<Longrightarrow> mgr_inv m"
proof (induction rule: reachable.induct)
  case reach_new
  then show ?case by (rule mgr_inv_new)
next
  case (reach_start m charA charB rng m' r rng')
  then show ?case using mgr_inv_start [of m charA charB rng] by simp
next
  case (reach_submit m p act rng m' r rng')
  then show ?case using mgr_inv_submit by blast
qed

lemma mgr_inv_registry: 
  assumes inv: "mgr_inv m" shows "registry_inv m"
  unfolding registry_inv_def
proof (intro allI iffI)
  fix p
  assume "battleIdByPlayer m p \<noteq> None"
  then obtain bid where b: "battleIdByPlayer m p = Some bid" by blast
  obtain x where x: "battlesById m bid = Some x" "p = id' (playerA x) \<or> p = id' (playerB x)"
    using mgr_inv_player [OF inv b] by blast
  show "\<exists>!bid. \<exists>b. battlesById m bid = Some b \<and> \<not> isFinished b
                       \<and> (p = id' (playerA b) \<or> p = id' (playerB b))"
  proof (rule ex1I [of _ bid])
    show "\<exists>b. battlesById m bid = Some b \<and> \<not> isFinished b \<and> (p = id' (playerA b) \<or> p = id' (playerB b))"
      using x mgr_inv_battle(1) [OF inv x(1)] by blast
  next
    fix bid'
    assume "\<exists>b. battlesById m bid' = Some b \<and> \<not> isFinished b \<and> (p = id' (playerA b) \<or> p = id' (playerB b))"
    then obtain y where y: "battlesById m bid' = Some y" "p = id' (playerA y) \<or> p = id' (playerB y)"
      by blast
    have "battleIdByPlayer m p = Some bid'"
      using mgr_inv_battle(4,5) [OF inv y(1)] y(2) by auto
    then show "bid' = bid" using b by simp
  qed
next
  fix p
  assume "\<exists>!bid. \<exists>b. battlesById m bid = Some b \<and> \<not> isFinished b
                       \<and> (p = id' (playerA b) \<or> p = id' (playerB b))"
  then obtain bid y where y: "battlesById m bid = Some y" "p = id' (playerA y) \<or> p = id' (playerB y)"
    by blast
  show "battleIdByPlayer m p \<noteq> None"
    using mgr_inv_battle(4,5) [OF inv y(1)] y(2) by auto
qed


lemma start_on_new:
  "fst (startBattle new_BattleManager a c rng)
     = \<lparr>battlesById = [makeBattleId (id' a) (id' c) \<mapsto> fst (new_Battle a c rng)],
        battleIdByPlayer = [id' a \<mapsto> makeBattleId (id' a) (id' c), id' c \<mapsto> makeBattleId (id' a) (id' c)]\<rparr>"
  by (simp add: startBattle_success new_BattleManager_def)


lemma reachable_short_mgr: "reachable short_mgr"
  unfolding short_mgr_def
  by (rule reach_start [OF reach_new, of char_sawa_2 char_weak "sconst 0"
        _ "fst (snd (startBattle new_BattleManager char_sawa_2 char_weak (sconst 0)))"
          "snd (snd (startBattle new_BattleManager char_sawa_2 char_weak (sconst 0)))"]) simp


lemma find_short:
  "findBattleForPlayer short_mgr (id' char_sawa_2)
     = Some (makeBattleId (id' char_sawa_2) (id' char_weak), short_battle)"
  by (simp add: findBattleForPlayer_Some_iff short_mgr_def start_on_new makeBattleId_nonempty short_battle_def)

lemma short_mgr_step1:
  "submitAction short_mgr (id' char_sawa_2) ACTION_ATTACK (sconst 0)
     = Inr (short_mgr_waiting, \<lparr>ok = True, message = WaitingForOpponent\<rparr>, sconst 0)"
  unfolding submitAction_found [OF find_short short_step1]
  by (simp add: short_mgr_waiting_def short_battle_waiting_def short_battle_def new_Battle_fields)

lemma reachable_short_mgr_waiting: "reachable short_mgr_waiting"
  using reach_submit [OF reachable_short_mgr short_mgr_step1] .

lemma find_short_waiting:
  "findBattleForPlayer short_mgr_waiting (id' char_weak)
     = Some (makeBattleId (id' char_sawa_2) (id' char_weak), short_battle_waiting)"
  by (simp add: findBattleForPlayer_Some_iff short_mgr_waiting_def short_mgr_def start_on_new makeBattleId_nonempty)


lemma short_done_finished: "isFinished short_battle_done"
  by (simp add: short_battle_done_def)


section \<open>Lemmas on hp and damage\<close>

lemma calcDamage_nonneg_int:
  assumes "0 \<le> atk a" "atk a \<in> \<int>" "def d \<in> \<int>"
  shows "0 \<le> fst (fst (calcDamage a d act r))" "fst (fst (calcDamage a d act r)) \<in> \<int>"
  using assms
  by (auto simp: calcDamage_def Let_def case_prod_beta max_def)

lemma fit_for_hp:
  assumes "fit_for c0 p" "0 \<le> dmg" "dmg \<in> \<int>"
  shows "fit_for c0 (p\<lparr>hp := max 0 (hp p - dmg)\<rparr>)"
proof -
  have m: "maxHp p = maxHp c0" using assms(1) sheet_eqD(3) [of p c0] by (simp add: fit_for_def)
  have "max 0 (hp p - dmg) \<in> \<int>" using assms by (simp add: fit_for_def max_def)
  moreover have "max 0 (hp p - dmg) \<le> maxHp p" using assms by (simp add: fit_for_def hp_in_range_def)
  ultimately show ?thesis using assms(1) by (simp add: fit_for_def hp_in_range_def)
qed

lemma fit_for_stats:
  assumes "fit_for c0 p" "nonneg_int_stats c0"
  shows "0 \<le> atk p" "atk p \<in> \<int>" "def p \<in> \<int>"
  using assms sheet_eqD(4,5) [of p c0] by (simp_all add: fit_for_def nonneg_int_stats_def)

lemma fit_for_processSingleAction:
  assumes st: "nonneg_int_stats a" "nonneg_int_stats c"
    and fit: "fit_for a (playerA x) \<and> fit_for c (playerB x)"
  shows "fit_for a (playerA (fst (processSingleAction x s t r)))
       \<and> fit_for c (playerB (fst (processSingleAction x s t r)))"
proof -
  note sa = fit_for_stats [OF _ st(1), of "playerA x"] and sc = fit_for_stats [OF _ st(2), of "playerB x"]
  have g: "0 \<le> atk (getP x s)" "atk (getP x s) \<in> \<int>" "def (getP x t) \<in> \<int>"
    using fit sa sc by (cases s; cases t; simp add: getP_def)+
  consider (same) "fst (processSingleAction x s t r) = x"
    | (hit) act r' where "fst (processSingleAction x s t r)
          = setHp x t (max 0 (hp (getP x t) - fst (fst (calcDamage (getP x s) (getP x t) act r'))))"
    using processSingleAction_shape [of x s t r] by blast
  then show ?thesis
  proof cases
    case same
    then show ?thesis using fit by simp
  next
    case hit
    note d = calcDamage_nonneg_int [OF g, of act r']
    show ?thesis unfolding hit using fit fit_for_hp [OF _ d]
      by (cases t) (simp_all add: setHp_players getP_def)
  qed
qed

lemma fit_for_setAction:
  assumes st: "nonneg_int_stats a" "nonneg_int_stats c"
    and fit: "fit_for a (playerA b) \<and> fit_for c (playerB b)" and wf: "wf_slots b"
    and s: "setAction b p act rng = Inr (b', res, rng')"
  shows "fit_for a (playerA b') \<and> fit_for c (playerB b')"
proof -
  have sub: "fst ` set (actions b) \<subseteq> {id' (playerA b), id' (playerB b)}"
    using wf by (simp add: wf_slots_def)
  have base: "fit_for a (playerA (b\<lparr>actions := set_slot p (Some act) (actions b)\<rparr>))
       \<and> fit_for c (playerB (b\<lparr>actions := set_slot p (Some act) (actions b)\<rparr>))"
    using fit by simp
  note str = setAction_struct [where P = "\<lambda>x. fit_for a (playerA x) \<and> fit_for c (playerB x)"
      and b = b and p = p and act = act and rng = rng,
      OF fit_for_processSingleAction [OF st] base sub setAction_Inr_callable [OF s], unfolded s]
  from str consider (rej) "b' = b"
    | (wait) "b' = b\<lparr>actions := set_slot p (Some act) (actions b)\<rparr>"
    | (res) b3 where "fit_for a (playerA b3) \<and> fit_for c (playerB b3)"
        "b' = (if snd (checkEnd b3) then fst (checkEnd b3)
                                else resetActions (b3\<lparr>round' := round' b3 + 1\<rparr>))"
    by auto
  then show ?thesis
  proof cases
    case rej
    then show ?thesis using fit by simp
  next
    case wait
    then show ?thesis using fit by simp
  next
    case res
    then show ?thesis by (simp add: checkEnd_static resetActions_static)
  qed
qed

section \<open>Damage\<close>

text \<open>
  Claim C1. \<open>calcDamage\<close> is called for an attack that hit. When the first draw is below
  the attacker's crit probability, the result is a crit, no second draw is made whatever
  the defender declared, and the damage is \<open>floor (atk * 1.5)\<close>, clamped at 0 as the source
  and the specification clamp all damage: for the non-negative \<open>atk\<close> of a character it
  is \<open>floor (atk * 1.5)\<close> itself. Otherwise, when the defender declared Defend and the
  defend draw passes, the damage is \<open>max 0 (atk - def)\<close>. Otherwise it is \<open>atk\<close>.
\<close>

theorem calcDamage_priority:
  "(shd rng < (case crit attacker of Some c \<Rightarrow> c | None \<Rightarrow> 0) \<longrightarrow>
      calcDamage attacker defender act rng
        = ((max 0 (of_int \<lfloor>atk attacker * (15 / 10)\<rfloor>), True, None), stl rng)
      \<and> (0 \<le> atk attacker \<longrightarrow>
           fst (fst (calcDamage attacker defender act rng)) = of_int \<lfloor>atk attacker * (15 / 10)\<rfloor>))
   \<and> (\<not> shd rng < (case crit attacker of Some c \<Rightarrow> c | None \<Rightarrow> 0)
        \<and> act = Some ACTION_DEFEND \<and> fst (tryDefend defender (stl rng)) \<longrightarrow>
      calcDamage attacker defender act rng
        = ((max 0 (atk attacker - def defender), False, Some True), stl (stl rng)))
   \<and> (\<not> shd rng < (case crit attacker of Some c \<Rightarrow> c | None \<Rightarrow> 0)
        \<and> \<not> (act = Some ACTION_DEFEND \<and> fst (tryDefend defender (stl rng))) \<longrightarrow>
      fst (fst (calcDamage attacker defender act rng)) = atk attacker)"
  by (auto simp: calcDamage_def tryDefend_def Let_def max_def split: option.splits)

text \<open>
  The three branches at the sample characters: a crit against a declared Defend (draw 0),
  a successful Defend (draws 1/2, then 0) and a failed one (draws 1/2, 1/2).
\<close>

theorem calcDamage_priority_witness:
  "calcDamage char_sawa char_sawa_2 (Some ACTION_DEFEND) (sconst 0)
     = ((33, True, None), sconst 0)
   \<and> calcDamage char_sawa char_sawa_2 (Some ACTION_DEFEND) (1 / 2 ## sconst 0)
     = ((12, False, Some True), sconst 0)
   \<and> fst (fst (calcDamage char_sawa char_sawa_2 (Some ACTION_DEFEND) (sconst (1 / 2)))) = 22"
  using calcDamage_priority [of "sconst 0" char_sawa char_sawa_2 "Some ACTION_DEFEND"]
    calcDamage_priority [of "1 / 2 ## sconst 0" char_sawa char_sawa_2 "Some ACTION_DEFEND"]
    calcDamage_priority [of "sconst (1 / 2)" char_sawa char_sawa_2 "Some ACTION_DEFEND"]
  by (simp add: char_sawa_def char_sawa_2_def tryDefend_def)

section \<open>A single action\<close>

text \<open>
  Claim C8. When the attacker declared Attack, the defender declared Evade and the evade
  draw succeeds, \<open>processSingleAction\<close> returns the battle as it was (so the defender's hp
  is unchanged), logs the evasion only, and has consumed exactly the evade draw: no hit
  roll is made and \<open>calcDamage\<close> is not called.
\<close>

theorem evade_success_negates_attack:
  "slot (actions b) (id' (getP b attacker)) = Some ACTION_ATTACK \<Longrightarrow>
   slot (actions b) (id' (getP b defender)) = Some ACTION_EVADE \<Longrightarrow>
   fst (tryEvade (getP b defender) rng) \<Longrightarrow>
   processSingleAction b attacker defender rng
     = (b, [EvadeSuccess (name (getP b defender)) (name (getP b attacker))], stl rng)"
  by (simp add: processSingleAction_def tryEvade_def ACTION_ATTACK_def ACTION_DEFEND_def
      ACTION_EVADE_def Let_def)

theorem evade_success_negates_attack_witness:
  "processSingleAction evade_round SideA SideB (sconst 0)
     = (evade_round, [EvadeSuccess ''Sawa 2'' ''Sawa''], sconst 0)
   \<and> hp (playerB (fst (processSingleAction evade_round SideA SideB (sconst 0)))) = 90"
proof -
  have 1: "slot (actions evade_round) (id' (getP evade_round SideA)) = Some ACTION_ATTACK"
    by (simp add: evade_round_def new_Battle_fields slot_def getP_def char_sawa_def char_sawa_2_def)
  have 2: "slot (actions evade_round) (id' (getP evade_round SideB)) = Some ACTION_EVADE"
    by (simp add: evade_round_def new_Battle_fields slot_def getP_def char_sawa_def char_sawa_2_def)
  have 3: "fst (tryEvade (getP evade_round SideB) (sconst 0))"
    by (simp add: evade_round_def new_Battle_fields tryEvade_def getP_def char_sawa_def)
  show ?thesis
    using evade_success_negates_attack [OF 1 2 3]
    by (simp add: evade_round_def new_Battle_fields getP_def char_sawa_def char_sawa_2_def)
qed

section \<open>Submitting an action\<close>



section \<open>Turn order\<close>

text \<open>
  Claim C6. The constructor computes the turn order once: the player of higher speed is
  first and no draw is made; on a tie exactly one draw is made and the first player given
  is first iff the draw is below 1/2 (a fair coin when the draws are uniform on [0,1)).
  In every later state of the battle \<open>turnOrder\<close> is the pair stored at creation, and the
  two players it refers to are the characters the battle was created with, up to hp.
\<close>

theorem turn_order_fixed_at_creation:
  assumes "battle_steps (fst (new_Battle a c rng0)) b"
  shows "turnOrder b = turnOrder (fst (new_Battle a c rng0))
       \<and> sheet (playerA b) = sheet a \<and> sheet (playerB b) = sheet c
       \<and> (speed a > speed c \<longrightarrow> turnOrder b = (SideA, SideB) \<and> snd (new_Battle a c rng0) = rng0)
       \<and> (speed c > speed a \<longrightarrow> turnOrder b = (SideB, SideA) \<and> snd (new_Battle a c rng0) = rng0)
       \<and> (speed a = speed c \<longrightarrow>
             turnOrder b = (if shd rng0 < 1 / 2 then (SideA, SideB) else (SideB, SideA))
             \<and> snd (new_Battle a c rng0) = stl rng0)"
  using battle_steps_static [OF assms new_Battle_wf] decideOrder_cases [where a = a and c = c and rng = rng0]
  by (simp add: new_Battle_fields)

theorem turn_order_fixed_at_creation_witness:
  "turnOrder short_battle_done = (SideB, SideA)
   \<and> turnOrder short_battle_done = turnOrder (fst (new_Battle char_sawa_2 char_weak (sconst 0)))
   \<and> turnOrder (fst (new_Battle char_sawa_2 char_sawa_2 (1 / 4 ## sconst 0))) = (SideA, SideB)
   \<and> snd (new_Battle char_sawa_2 char_sawa_2 (1 / 4 ## sconst 0)) = sconst 0
   \<and> turnOrder (fst (new_Battle char_weak char_sawa_2 (1 / 4 ## sconst 0))) = (SideA, SideB)
   \<and> snd (new_Battle char_weak char_sawa_2 (1 / 4 ## sconst 0)) = 1 / 4 ## sconst 0"
proof -
  have s1: "speed char_weak > speed char_sawa_2" by (simp add: char_sawa_2_def char_weak_def)
  have s2: "speed char_sawa_2 = speed char_sawa_2" by simp
  have s3: "shd (1 / 4 ## sconst (0 :: rat)) < 1 / 2" by simp
  from turn_order_fixed_at_creation [OF short_steps_done] s1
  have 1: "turnOrder short_battle_done = (SideB, SideA)"
    "turnOrder short_battle_done = turnOrder (fst (new_Battle char_sawa_2 char_weak (sconst 0)))"
    by blast+
  from turn_order_fixed_at_creation [OF steps_refl, where a = char_sawa_2 and c = char_sawa_2
      and ?rng0.0 = "1 / 4 ## sconst 0"] s2 s3
  have 2: "turnOrder (fst (new_Battle char_sawa_2 char_sawa_2 (1 / 4 ## sconst 0))) = (SideA, SideB)"
    "snd (new_Battle char_sawa_2 char_sawa_2 (1 / 4 ## sconst 0)) = sconst 0"
    by simp_all
  from turn_order_fixed_at_creation [OF steps_refl, where a = char_weak and c = char_sawa_2
      and ?rng0.0 = "1 / 4 ## sconst 0"] s1
  have 3: "turnOrder (fst (new_Battle char_weak char_sawa_2 (1 / 4 ## sconst 0))) = (SideA, SideB)"
    "snd (new_Battle char_weak char_sawa_2 (1 / 4 ## sconst 0)) = 1 / 4 ## sconst 0"
    by blast+
  from 1 2 3 show ?thesis by blast
qed


section \<open>Waiting for the opponent\<close>



section \<open>Resolving a round\<close>

text \<open>
  Claim C2. \<open>resolveRound\<close> always returns. With \<open>(first, second)\<close> the stored turn order,
  it applies the action of \<open>first\<close>; if no player is then at hp 0 or below it applies
  the action of \<open>second\<close>, and otherwise it does not (the players and the random source
  are those after the first action). Then, if a player is at hp 0 or below, the battle
  is finished, round and slots stay as they were, the winner is \<open>None\<close> when both are
  at 0 or below and the identity of the survivor otherwise, and the log ends with
  the draw or the victory line; if not, the round counter is one more, both slots are
  unset, and the finished flag and winner are untouched.
\<close>

theorem resolveRound_outcome:
  "\<exists>b' log rng'. resolveRound b rng = Inr (b', log, rng') \<and>
     (let first = fst (turnOrder b); second = snd (turnOrder b);
          p1 = processSingleAction b first second rng;
          b1 = fst p1;
          p2 = processSingleAction b1 second first (snd (snd p1));
          second_applied = (\<not> (hp (playerA b1) \<le> 0 \<or> hp (playerB b1) \<le> 0));
          b3 = (if second_applied then fst p2 else b1)
      in playerA b' = playerA b3 \<and> playerB b' = playerB b3
         \<and> rng' = (if second_applied then snd (snd p2) else snd (snd p1))
         \<and> turnOrder b' = turnOrder b
         \<and> (if hp (playerA b3) \<le> 0 \<or> hp (playerB b3) \<le> 0
            then isFinished b' \<and> round' b' = round' b \<and> actions b' = actions b
                 \<and> winnerId b' = (if hp (playerA b3) \<le> 0 \<and> hp (playerB b3) \<le> 0 then None
                                  else if hp (playerA b3) \<le> 0 then Some (id' (playerB b3))
                                  else Some (id' (playerA b3)))
                 \<and> (\<exists>w l. last log = (if hp (playerA b3) \<le> 0 \<and> hp (playerB b3) \<le> 0
                                       then FinishDraw (statusLine b3)
                                       else FinishWin w l (statusLine b3)))
            else isFinished b' = isFinished b \<and> winnerId b' = winnerId b
                 \<and> round' b' = round' b + 1
                 \<and> slot (actions b') (id' (playerA b')) = None
                 \<and> slot (actions b') (id' (playerB b')) = None))"
proof -
  define p1 where "p1 = processSingleAction b (fst (turnOrder b)) (snd (turnOrder b)) rng"
  define p2 where "p2 = processSingleAction (fst p1) (snd (turnOrder b)) (fst (turnOrder b)) (snd (snd p1))"
  define b3 where "b3 = (if \<not> (hp (playerA (fst p1)) \<le> 0 \<or> hp (playerB (fst p1)) \<le> 0) then fst p2 else fst p1)"
  have f3: "turnOrder b3 = turnOrder b" "actions b3 = actions b" "round' b3 = round' b"
    "isFinished b3 = isFinished b" "winnerId b3 = winnerId b"
    by (simp_all add: b3_def p2_def p1_def processSingleAction_fields)
  show ?thesis
  proof (cases "hp (playerA b3) \<le> 0 \<or> hp (playerB b3) \<le> 0")
    case True
    then have ce: "snd (checkEnd b3)" by (simp add: checkEnd_snd)
    have "\<exists>log. resolveRound b rng
        = Inr (fst (checkEnd b3), log,
               if \<not> (hp (playerA (fst p1)) \<le> 0 \<or> hp (playerB (fst p1)) \<le> 0) then snd (snd p2) else snd (snd p1))
        \<and> (\<exists>w l. last log = (if hp (playerA b3) \<le> 0 \<and> hp (playerB b3) \<le> 0
                                       then FinishDraw (statusLine b3)
                                       else FinishWin w l (statusLine b3)))"
      using ce True unfolding resolveRound_eq [of b rng] Let_def p1_def [symmetric] checkEnd_snd
      by (cases "hp (playerA (fst p1)) \<le> 0 \<or> hp (playerB (fst p1)) \<le> 0")
         (auto simp: p2_def [symmetric] b3_def finishMessage_checkEnd checkEnd_snd)
    then show ?thesis
      unfolding Let_def p1_def [symmetric] p2_def [symmetric] b3_def [symmetric]
      using True f3 by (auto simp: checkEnd_static checkEnd_fst)
  next
    case False
    then have ce: "\<not> snd (checkEnd b3)" by (simp add: checkEnd_snd)
    have "\<exists>log. resolveRound b rng
        = Inr (resetActions (b3\<lparr>round' := round' b3 + 1\<rparr>), log,
               if \<not> (hp (playerA (fst p1)) \<le> 0 \<or> hp (playerB (fst p1)) \<le> 0) then snd (snd p2) else snd (snd p1))"
      using ce False unfolding resolveRound_eq [of b rng] Let_def p1_def [symmetric] checkEnd_snd
      by (cases "hp (playerA (fst p1)) \<le> 0 \<or> hp (playerB (fst p1)) \<le> 0")
         (auto simp: p2_def [symmetric] b3_def checkEnd_snd)
    then show ?thesis
      unfolding Let_def p1_def [symmetric] p2_def [symmetric] b3_def [symmetric]
      using False f3 by (auto simp: resetActions_static resetActions_def slot_set_slot)
  qed
qed


theorem resolveRound_outcome_witness:
  "(\<exists>b' log. resolveRound short_battle_ready (sconst 0) = Inr (b', log, sconst 0)
       \<and> isFinished b' \<and> winnerId b' = Some (id' char_sawa_2)
       \<and> hp (playerA b') = 67 \<and> hp (playerB b') = 0 \<and> round' b' = 1)
   \<and> (\<exists>b' log. resolveRound sample_battle_ready (sconst 0) = Inr (b', log, sconst 0)
       \<and> \<not> isFinished b' \<and> hp (playerA b') = 67 \<and> hp (playerB b') = 60 \<and> round' b' = 2
       \<and> slot (actions b') (id' char_sawa_2) = None \<and> slot (actions b') (id' char_sawa) = None)"
proof -
  have h1: "hp (playerB short_battle_ready) = 20" "hp (playerB sample_battle_ready) = 90"
    by (simp_all add: ready_defs new_Battle_fields)
  note t1 = resolveRound_outcome [of short_battle_ready "sconst 0",
      unfolded Let_def short_ready_order fst_conv snd_conv short_ready_first]
  from t1 obtain b' log rng' where r1: "resolveRound short_battle_ready (sconst 0) = Inr (b', log, rng')"
    and p1: "playerA b' = char_sawa_2\<lparr>hp := 67\<rparr>" "playerB b' = char_weak\<lparr>hp := 0\<rparr>"
      "rng' = sconst 0" "isFinished b'" "round' b' = round' short_battle_ready"
      "winnerId b' = Some (id' (char_sawa_2\<lparr>hp := 67\<rparr>))"
    by (simp add: h1 short_ready_second) (auto simp: char_sawa_2_def char_weak_def)
  have 1: "\<exists>b' log. resolveRound short_battle_ready (sconst 0) = Inr (b', log, sconst 0)
       \<and> isFinished b' \<and> winnerId b' = Some (id' char_sawa_2)
       \<and> hp (playerA b') = 67 \<and> hp (playerB b') = 0 \<and> round' b' = 1"
    using r1 p1 by (simp add: ready_defs new_Battle_fields)
  note t2 = resolveRound_outcome [of sample_battle_ready "sconst 0",
      unfolded Let_def sample_ready_order fst_conv snd_conv sample_ready_first]
  from t2 obtain c' log2 rng2 where r2: "resolveRound sample_battle_ready (sconst 0) = Inr (c', log2, rng2)"
    and p2: "playerA c' = char_sawa_2\<lparr>hp := 67\<rparr>" "playerB c' = char_sawa\<lparr>hp := 60\<rparr>"
      "rng2 = sconst 0" "isFinished c' = isFinished sample_battle_ready"
      "round' c' = round' sample_battle_ready + 1"
      "slot (actions c') (id' (playerA c')) = None" "slot (actions c') (id' (playerB c')) = None"
    by (simp add: h1 sample_ready_second) (auto simp: char_sawa_2_def char_sawa_def)
  have 2: "\<exists>b' log. resolveRound sample_battle_ready (sconst 0) = Inr (b', log, sconst 0)
       \<and> \<not> isFinished b' \<and> hp (playerA b') = 67 \<and> hp (playerB b') = 60 \<and> round' b' = 2
       \<and> slot (actions b') (id' char_sawa_2) = None \<and> slot (actions b') (id' char_sawa) = None"
    using r2 p2 by (simp add: ready_defs new_Battle_fields)
  from 1 2 show ?thesis by blast
qed


section \<open>The battle key\<close>

text \<open>
  Claim C3. The battle key does not depend on the order of the two identities. A
  \<open>startBattle\<close> for a pair, in either order, whose key is in the registry fails with
  "already in progress" and returns the registry (and the random source) as it was. When
  a \<open>startBattle\<close> succeeds, the key of the pair maps to the new battle, so a second
  \<open>startBattle\<close> for the pair, in either order, fails in this way: the registry never
  holds two battles of one unordered pair.
\<close>

theorem battle_key_is_canonical:
  "makeBattleId A B = makeBattleId B A
   \<and> (battlesById m (makeBattleId (id' a) (id' c)) \<noteq> None \<longrightarrow>
        startBattle m a c rng
          = (m, \<lparr>ok = False, message = AlreadyInProgress, battleId = makeBattleId (id' a) (id' c)\<rparr>, rng)
        \<and> startBattle m c a rng
          = (m, \<lparr>ok = False, message = AlreadyInProgress, battleId = makeBattleId (id' a) (id' c)\<rparr>, rng))
   \<and> (ok (fst (snd (startBattle m a c rng))) \<longrightarrow>
        battlesById (fst (startBattle m a c rng)) (makeBattleId (id' a) (id' c))
          = Some (fst (new_Battle a c rng))
        \<and> startBattle (fst (startBattle m a c rng)) c a rng2
          = (fst (startBattle m a c rng),
             \<lparr>ok = False, message = AlreadyInProgress, battleId = makeBattleId (id' a) (id' c)\<rparr>, rng2)
        \<and> startBattle (fst (startBattle m a c rng)) a c rng2
          = (fst (startBattle m a c rng),
             \<lparr>ok = False, message = AlreadyInProgress, battleId = makeBattleId (id' a) (id' c)\<rparr>, rng2))"
proof -
  have 1: "makeBattleId A B = makeBattleId B A" by (rule makeBattleId_commute)
  have 2: "startBattle m a c rng
          = (m, \<lparr>ok = False, message = AlreadyInProgress, battleId = makeBattleId (id' a) (id' c)\<rparr>, rng)
        \<and> startBattle m c a rng
          = (m, \<lparr>ok = False, message = AlreadyInProgress, battleId = makeBattleId (id' a) (id' c)\<rparr>, rng)"
    if "battlesById m (makeBattleId (id' a) (id' c)) \<noteq> None" for m rng
    using that startBattle_in_progress [of m a c rng] startBattle_in_progress [of m c a rng]
    by (simp add: makeBattleId_commute [of "id' c" "id' a"])
  have 3: "battlesById (fst (startBattle m a c rng)) (makeBattleId (id' a) (id' c))
          = Some (fst (new_Battle a c rng))" if "ok (fst (snd (startBattle m a c rng)))"
    using that unfolding startBattle_ok_iff by (simp add: startBattle_success)
  show ?thesis using 1 2 [of "fst (startBattle m a c rng)" rng2] 2 [of m rng] 3 by simp
qed


theorem battle_key_is_canonical_witness:
  "makeBattleId (id' char_sawa_2) (id' char_sawa) = makeBattleId (id' char_sawa) (id' char_sawa_2)
   \<and> startBattle sample_mgr char_sawa char_sawa_2 (sconst (1 / 2))
       = (sample_mgr, \<lparr>ok = False, message = AlreadyInProgress,
                        battleId = ''sawa_2@mastodon.social__sawa_@mastodon.social''\<rparr>, sconst (1 / 2))
   \<and> startBattle sample_mgr char_sawa_2 char_sawa (sconst (1 / 2))
       = (sample_mgr, \<lparr>ok = False, message = AlreadyInProgress,
                        battleId = ''sawa_2@mastodon.social__sawa_@mastodon.social''\<rparr>, sconst (1 / 2))"
proof -
  have okk: "ok (fst (snd (startBattle new_BattleManager char_sawa_2 char_sawa (sconst 0))))"
    by (simp add: startBattle_ok_iff new_BattleManager_def)
  from battle_key_is_canonical [of "id' char_sawa_2" "id' char_sawa" new_BattleManager
      char_sawa_2 char_sawa "sconst 0" "sconst (1 / 2)"] okk
  show ?thesis unfolding sample_mgr_def sample_key by blast
qed


section \<open>The registry\<close>




text \<open>
  Claim C5. In every state of the manager (any sequence of \<open>startBattle\<close> and
  \<open>submitAction\<close> calls from the empty registry), an identity has an entry in the
  participant map iff it is a player of exactly one battle of \<open>battlesById\<close> that is not
  finished. When \<open>submitAction\<close> finds the caller's battle and \<open>setAction\<close> leaves it
  finished, the same call removes the entries of both players and the battle's key (the
  key of that pair), the invariant holds after it, and a \<open>startBattle\<close> for the two
  identities, in either order, succeeds at once.
\<close>

theorem registry_invariant:
  assumes "reachable m"
  shows "registry_inv m
     \<and> (findBattleForPlayer m p = Some (key, b) \<and> setAction b p act rng = Inr (b', res, rng')
          \<and> isFinished b' \<longrightarrow>
        (\<exists>m'. submitAction m p act rng = Inr (m', \<lparr>ok = True, message = snd res\<rparr>, rng')
           \<and> registry_inv m'
           \<and> battleIdByPlayer m' (id' (playerA b)) = None
           \<and> battleIdByPlayer m' (id' (playerB b)) = None
           \<and> key = makeBattleId (id' (playerA b)) (id' (playerB b))
           \<and> battlesById m' key = None
           \<and> (id' a = id' (playerA b) \<and> id' c = id' (playerB b) \<longrightarrow>
                ok (fst (snd (startBattle m' a c rng2))) \<and> ok (fst (snd (startBattle m' c a rng2))))))"
proof -
  have inv: "mgr_inv m" using assms by (rule reachable_mgr_inv)
  have 1: "registry_inv m" using inv by (rule mgr_inv_registry)
  have 2: "\<exists>m'. submitAction m p act rng = Inr (m', \<lparr>ok = True, message = snd res\<rparr>, rng')
           \<and> registry_inv m'
           \<and> battleIdByPlayer m' (id' (playerA b)) = None
           \<and> battleIdByPlayer m' (id' (playerB b)) = None
           \<and> key = makeBattleId (id' (playerA b)) (id' (playerB b))
           \<and> battlesById m' key = None
           \<and> (id' a = id' (playerA b) \<and> id' c = id' (playerB b) \<longrightarrow>
                ok (fst (snd (startBattle m' a c rng2))) \<and> ok (fst (snd (startBattle m' c a rng2))))"
    if f: "findBattleForPlayer m p = Some (key, b)" and sa: "setAction b p act rng = Inr (b', res, rng')"
      and fin: "isFinished b'"
  proof -
    have reg: "battlesById m key = Some b"
      using f by (simp add: findBattleForPlayer_Some_iff)
    note ob = mgr_inv_battle [OF inv reg]
    note st = setAction_static [OF ob(2) sa]
    have ida: "id' (playerA b') = id' (playerA b)" and idb: "id' (playerB b') = id' (playerB b)"
      using st sheet_eqD(1) [of "playerA b'" "playerA b"] sheet_eqD(1) [of "playerB b'" "playerB b"]
      by simp_all
    define m' where "m' = m\<lparr>battlesById := (battlesById m)(key := None),
                   battleIdByPlayer := ((battleIdByPlayer m)(id' (playerA b) := None))
                                          (id' (playerB b) := None)\<rparr>"
    have s: "submitAction m p act rng = Inr (m', \<lparr>ok = True, message = snd res\<rparr>, rng')"
      unfolding submitAction_found [OF f sa] m'_def using fin ida idb by simp
    have r: "registry_inv m'"
      using mgr_inv_registry [OF mgr_inv_submit [OF inv s]] .
    have k: "makeBattleId (id' (playerB b)) (id' (playerA b)) = key"
      using ob(3) makeBattleId_commute by simp
    have free: "battleIdByPlayer m' (id' (playerA b)) = None"
      "battleIdByPlayer m' (id' (playerB b)) = None" "battlesById m' key = None"
      by (simp_all add: m'_def)
    show ?thesis
      using s r free ob(3) k by (auto simp: startBattle_ok_iff)
  qed
  show ?thesis using 1 2 by blast
qed

theorem registry_invariant_witness:
  "registry_inv short_mgr_waiting
   \<and> (\<exists>m' log. submitAction short_mgr_waiting (id' char_weak) ACTION_ATTACK (sconst 0)
          = Inr (m', \<lparr>ok = True, message = RoundLog log\<rparr>, sconst 0)
        \<and> registry_inv m'
        \<and> battleIdByPlayer m' (id' char_sawa_2) = None \<and> battleIdByPlayer m' (id' char_weak) = None
        \<and> battlesById m' (makeBattleId (id' char_sawa_2) (id' char_weak)) = None
        \<and> ok (fst (snd (startBattle m' char_sawa_2 char_weak (sconst 0))))
        \<and> ok (fst (snd (startBattle m' char_weak char_sawa_2 (sconst 0)))))"
proof -
  have ids: "id' (playerA short_battle_waiting) = id' char_sawa_2"
    "id' (playerB short_battle_waiting) = id' char_weak"
    by (simp_all add: short_battle_waiting_def short_battle_def new_Battle_fields)
  from registry_invariant [OF reachable_short_mgr_waiting,
      where p = "id' char_weak" and key = "makeBattleId (id' char_sawa_2) (id' char_weak)"
        and b = short_battle_waiting and act = ACTION_ATTACK and rng = "sconst 0"
        and b' = short_battle_done and res = "(True, RoundLog short_log)" and rng' = "sconst 0"
        and a = char_sawa_2 and c = char_weak and ?rng2.0 = "sconst 0"]
    find_short_waiting short_step2 short_done_finished
  show ?thesis unfolding ids by auto
qed


section \<open>Bounds\<close>

text \<open>
  Claim C9. When the stats of both characters are non-negative integers and each starts
  at \<open>hp = maxHp\<close>, then in every state of the battle the hp of each player is an integer
  in \<open>[0, maxHp]\<close>, and the damage \<open>calcDamage\<close> computes for any attacker and defender
  among the two players, any declared action of the defender and any draws is a
  non-negative integer.
\<close>

theorem hp_and_damage_bounds:
  assumes "nonneg_int_stats a" "nonneg_int_stats c" "hp a = maxHp a" "hp c = maxHp c"
    and "battle_steps (fst (new_Battle a c rng0)) b"
  shows "0 \<le> hp (playerA b) \<and> hp (playerA b) \<le> maxHp (playerA b) \<and> hp (playerA b) \<in> \<int>
       \<and> 0 \<le> hp (playerB b) \<and> hp (playerB b) \<le> maxHp (playerB b) \<and> hp (playerB b) \<in> \<int>
       \<and> 0 \<le> fst (fst (calcDamage (getP b s) (getP b t) act rng))
       \<and> fst (fst (calcDamage (getP b s) (getP b t) act rng)) \<in> \<int>"
proof -
  have init: "fit_for a a" "fit_for c c"
    using assms(1-4) by (simp_all add: fit_for_def hp_in_range_def nonneg_int_stats_def)
  have "wf_slots b \<and> fit_for a (playerA b) \<and> fit_for c (playerB b)"
    using assms(5) init
  proof (induction "fst (new_Battle a c rng0)" b rule: battle_steps.induct)
    case steps_refl
    then show ?case by (simp add: new_Battle_wf new_Battle_fields)
  next
    case (steps_setAction b p act rng b' res rng')
    then have ih: "wf_slots b" "fit_for a (playerA b) \<and> fit_for c (playerB b)" by simp_all
    show ?case
      using setAction_static [OF ih(1) steps_setAction(3)]
        fit_for_setAction [OF assms(1,2) ih(2) ih(1) steps_setAction(3)] by simp
  qed
  then have fit: "fit_for a (playerA b)" "fit_for c (playerB b)" by simp_all
  note sa = fit_for_stats [OF fit(1) assms(1)] and sc = fit_for_stats [OF fit(2) assms(2)]
  have g: "0 \<le> atk (getP b s)" "atk (getP b s) \<in> \<int>" "def (getP b t) \<in> \<int>"
    using sa sc by (cases s; cases t; simp add: getP_def)+
  have m: "maxHp (playerA b) = maxHp a" "maxHp (playerB b) = maxHp c"
    using fit sheet_eqD(3) [of "playerA b" a] sheet_eqD(3) [of "playerB b" c]
    by (simp_all add: fit_for_def)
  show ?thesis
    using fit calcDamage_nonneg_int [OF g, of act rng]
    by (simp add: fit_for_def hp_in_range_def)
qed


theorem hp_and_damage_bounds_witness:
  "0 \<le> hp (playerA short_battle_done) \<and> hp (playerA short_battle_done) \<le> maxHp (playerA short_battle_done)
   \<and> hp (playerA short_battle_done) \<in> \<int>
   \<and> 0 \<le> hp (playerB short_battle_done) \<and> hp (playerB short_battle_done) \<le> maxHp (playerB short_battle_done)
   \<and> hp (playerB short_battle_done) \<in> \<int>
   \<and> 0 \<le> fst (fst (calcDamage (getP short_battle_done SideB) (getP short_battle_done SideA)
                          (Some ACTION_DEFEND) (sconst (1 / 2))))
   \<and> fst (fst (calcDamage (getP short_battle_done SideB) (getP short_battle_done SideA)
                    (Some ACTION_DEFEND) (sconst (1 / 2)))) \<in> \<int>"
proof -
  have st: "nonneg_int_stats char_sawa_2" "nonneg_int_stats char_weak"
    by (simp_all add: nonneg_int_stats_def char_sawa_2_def char_weak_def)
  have full: "hp char_sawa_2 = maxHp char_sawa_2" "hp char_weak = maxHp char_weak"
    by (simp_all add: char_sawa_2_def char_weak_def)
  show ?thesis
    using hp_and_damage_bounds [OF st full short_steps_done, of SideB SideA "Some ACTION_DEFEND" "sconst (1 / 2)"] .
qed

section \<open>Further properties\<close>

text \<open>
  The scenario of the specification: with speeds 18 and 20 the faster player is first
  in the turn order; when the player of atk 20 attacks the player of hp 90 and def 9 who
  declared Defend, and the hit draw passes, the crit draw fails and the defend draw
  passes, the defender is left with \<open>90 - max 0 (20 - 9) = 79\<close> hp.
\<close>

theorem defend_scenario:
  "turnOrder defend_round = (SideB, SideA)
   \<and> hp (playerA defend_round) = 100 \<and> atk (playerA defend_round) = 20
   \<and> hp (playerB defend_round) = 90 \<and> def (playerB defend_round) = 9
   \<and> processSingleAction defend_round SideA SideB (0 ## 1 / 2 ## sconst 0)
       = (defend_round\<lparr>playerB := char_sawa\<lparr>hp := 79\<rparr>\<rparr>,
          [AttackHit ''Sawa'' ''Sawa 2'' 11 False (Some True)], sconst 0)"
  by (simp add: defend_round_def char_sawa_2_def char_sawa_def new_Battle_fields decideOrder_def
      action_defs Let_def)

text \<open>
  In every state of a battle whose players do not have the id \<^verbatim>\<open>hasOwnProperty\<close>,
  \<open>setAction\<close> returns, for any caller and any action: the TypeErrors of reading a
  property of \<^verbatim>\<open>null\<close> cannot happen.
\<close>

theorem battle_never_raises:
  assumes "battle_steps (fst (new_Battle a c rng0)) b"
    and "id' a \<noteq> ''hasOwnProperty''" "id' c \<noteq> ''hasOwnProperty''"
  shows "\<exists>b' res rng'. setAction b p act rng = Inr (b', res, rng')"
  using setAction_total [of b p act rng] battle_steps_ids [OF assms(1)] assms(2,3) by simp

theorem battle_never_raises_witness:
  "\<exists>b' res rng'. setAction short_battle_waiting ''mallory@mastodon.social'' ''dance'' (sconst (1 / 2))
      = Inr (b', res, rng')"
proof -
  have "id' char_sawa_2 \<noteq> ''hasOwnProperty''" "id' char_weak \<noteq> ''hasOwnProperty''"
    by (simp_all add: sample_defs)
  then show ?thesis using battle_never_raises [OF short_steps_waiting] by blast
qed

text \<open>
  When a player has the id \<^verbatim>\<open>hasOwnProperty\<close>, every call of \<open>setAction\<close> on the battle,
  as long as it is not finished, raises the TypeError of calling the value of that slot.
  It is raised before anything is written, so the battle stays in its first state.
\<close>

theorem shadowed_id_raises:
  assumes "battle_steps (fst (new_Battle a c rng0)) b" "\<not> isFinished b"
    and "id' a = ''hasOwnProperty'' \<or> id' c = ''hasOwnProperty''"
  shows "setAction b p act rng = Inl TypeError"
  using setAction_raises [of b p act rng] battle_steps_ids [OF assms(1)] assms(2,3) by simp

theorem shadowed_id_raises_witness:
  "setAction shadow_battle ''mallory@mastodon.social'' ACTION_ATTACK (sconst 0) = Inl TypeError
   \<and> setAction shadow_battle (id' char_sawa_2) ACTION_ATTACK (sconst 0) = Inl TypeError"
proof -
  have nf: "\<not> isFinished shadow_battle" by (simp add: shadow_battle_def new_Battle_fields)
  have sh: "id' char_sawa_2 = ''hasOwnProperty'' \<or> id' char_shadow = ''hasOwnProperty''"
    by (simp add: char_shadow_def)
  have st: "battle_steps (fst (new_Battle char_sawa_2 char_shadow (sconst 0))) shadow_battle"
    unfolding shadow_battle_def by (rule steps_refl)
  show ?thesis using shadowed_id_raises [OF st nf sh] by simp
qed

text \<open>In every state of the manager \<open>submitAction\<close> returns, for any action and any caller
  that is in no battle or in a battle whose players do not have the id \<^verbatim>\<open>hasOwnProperty\<close>.\<close>

theorem manager_never_raises:
  assumes "reachable m"
    and "\<And>key b. findBattleForPlayer m p = Some (key, b) \<Longrightarrow>
           id' (playerA b) \<noteq> ''hasOwnProperty'' \<and> id' (playerB b) \<noteq> ''hasOwnProperty''"
  shows "\<exists>m' r rng'. submitAction m p act rng = Inr (m', r, rng')"
proof (cases "findBattleForPlayer m p")
  case None
  then show ?thesis by (simp add: submitAction_not_found)
next
  case (Some kb)
  obtain key b where f: "findBattleForPlayer m p = Some (key, b)" using Some by (cases kb) simp
  then have "battlesById m key = Some b" by (simp add: findBattleForPlayer_Some_iff)
  then have "wf_slots b" using mgr_inv_battle(2) [OF reachable_mgr_inv [OF assms(1)]] by blast
  then obtain b' res rng' where "setAction b p act rng = Inr (b', res, rng')"
    using setAction_total [of b p act rng] assms(2) [OF f] by blast
  then show ?thesis using submitAction_found [OF f] by blast
qed

theorem manager_never_raises_witness:
  "\<exists>m' r rng'. submitAction short_mgr_waiting (id' char_weak) ACTION_EVADE (sconst (1 / 2)) = Inr (m', r, rng')"
proof -
  have "id' (playerA b) \<noteq> ''hasOwnProperty'' \<and> id' (playerB b) \<noteq> ''hasOwnProperty''"
    if "findBattleForPlayer short_mgr_waiting (id' char_weak) = Some (key, b)" for key b
    using that unfolding find_short_waiting
    by (auto simp: sample_defs new_Battle_fields)
  then show ?thesis using manager_never_raises [OF reachable_short_mgr_waiting] by blast
qed

text \<open>
  When both characters start with a positive hp, both players of a battle that is not
  finished have a positive hp, in every state of the battle.
\<close>

theorem in_progress_hp_positive:
  assumes "0 < hp a" "0 < hp c" "battle_steps (fst (new_Battle a c rng0)) b" "\<not> isFinished b"
  shows "0 < hp (playerA b) \<and> 0 < hp (playerB b)"
proof -
  have "wf_slots b \<and> (\<not> isFinished b \<longrightarrow> 0 < hp (playerA b) \<and> 0 < hp (playerB b))"
    using assms(3,1,2)
  proof (induction "fst (new_Battle a c rng0)" b rule: battle_steps.induct)
    case steps_refl
    then show ?case by (simp add: new_Battle_wf new_Battle_fields)
  next
    case (steps_setAction b p act rng b' res rng')
    then have ih: "wf_slots b" "\<not> isFinished b \<longrightarrow> 0 < hp (playerA b) \<and> 0 < hp (playerB b)"
      by simp_all
    have sub: "fst ` set (actions b) \<subseteq> {id' (playerA b), id' (playerB b)}"
      using ih(1) by (simp add: wf_slots_def)
    note str = setAction_struct [where P = "\<lambda>_. True" and b = b and p = p and act = act and rng = rng,
      OF _ _ sub setAction_Inr_callable [OF steps_setAction(3)], unfolded steps_setAction(3)]
    from str consider (rej) "b' = b"
      | (wait) "b' = b\<lparr>actions := set_slot p (Some act) (actions b)\<rparr>"
      | (res) b3 where "b' = (if snd (checkEnd b3) then fst (checkEnd b3)
                                else resetActions (b3\<lparr>round' := round' b3 + 1\<rparr>))"
      by auto
    then have "\<not> isFinished b' \<longrightarrow> 0 < hp (playerA b') \<and> 0 < hp (playerB b')"
    proof cases
      case rej
      then show ?thesis using ih by simp
    next
      case wait
      then show ?thesis using ih by simp
    next
      case res
      then show ?thesis
        by (cases "snd (checkEnd b3)")
           (auto simp: checkEnd_fst checkEnd_snd resetActions_static split: if_splits)
    qed
    then show ?case using setAction_static [OF ih(1) steps_setAction(3)] by simp
  qed
  then show ?thesis using assms(4) by simp
qed

theorem in_progress_hp_positive_witness:
  "0 < hp (playerA short_battle_waiting) \<and> 0 < hp (playerB short_battle_waiting)"
proof -
  have "0 < hp char_sawa_2" "0 < hp char_weak" by (simp_all add: char_sawa_2_def char_weak_def)
  moreover have "\<not> isFinished short_battle_waiting"
    by (simp add: short_battle_waiting_def short_battle_def new_Battle_fields)
  ultimately show ?thesis using in_progress_hp_positive [OF _ _ short_steps_waiting] by blast
qed

end
